theory Spec2Isabelle
  imports Main "HOL-Library.Word" "HOL-Library.Signed_Division"
begin

section \<open>Data model\<close>

text \<open>
  The bound and every candidate value are \<^verbatim>\<open>unsigned long\<close>: 64-bit words (LP64), whose
  \<open>+\<close> wraps around; an \<^verbatim>\<open>int\<close> has 32 bits, and its overflow is undefined.  A
  \<^verbatim>\<open>vector\<close> or \<^verbatim>\<open>forward_list\<close> is a list.  An iterator is its offset from
  \<^verbatim>\<open>begin()\<close>, a natural number; dereferencing an offset that is not below the length
  has no defined result; moving an iterator past the end is no fault.

  A call that does not return a sequence (an exception of the library, undefined
  behaviour such as a division by zero, an overflow of an \<^verbatim>\<open>int\<close> or a dereference out of
  range, a loop that never ends) has the value \<open>None\<close>.
\<close>

type_synonym ulong = "64 word"

subsection \<open>Storage\<close>

text \<open>
  What the platform can store is not in the source: it is a parameter \<open>cap\<close> of every
  algorithm, the number of elements up to which a container can be created, reserved or
  grown at the time of the call.  A larger request does not succeed (\<^verbatim>\<open>bad_alloc\<close>, or no
  container of that size exists), and the call returns no sequence.  Whatever the
  platform, no request for more than \<open>2\<^sup>6\<^sup>0 - 1\<close> elements succeeds: that is
  \<^verbatim>\<open>vector<unsigned long>::max_size()\<close> on LP64, \<open>(2\<^sup>6\<^sup>3 - 1) div 8\<close>, above which the library
  throws \<^verbatim>\<open>length_error\<close>.  The model takes the same limit for the list and for the flags,
  which no platform holds in such numbers (\<open>2\<^sup>6\<^sup>0\<close> list nodes are \<open>2\<^sup>6\<^sup>4\<close> bytes, \<open>2\<^sup>6\<^sup>0\<close> flags
  are \<open>2\<^sup>5\<^sup>7\<close> bytes).
\<close>

definition max_size :: nat where
  "max_size = 1152921504606846975"

definition can_hold :: "nat \<Rightarrow> nat \<Rightarrow> bool" where
  "can_hold cap n = (n \<le> cap \<and> n \<le> max_size)"

text \<open>\<^verbatim>\<open>INT_MAX\<close>\<close>

definition int_max :: int where
  "int_max = 2147483647"

section \<open>The naive filter: \<^verbatim>\<open>simplest\<close>\<close>

text \<open>
  \<^verbatim>\<open>iota(first, last, value)\<close>: for each cell in order, \<^verbatim>\<open>*first = value; ++value;\<close> (the
  increment follows every store, the last one too).  The source passes the literal \<^verbatim>\<open>1\<close>,
  so the value is an \<^verbatim>\<open>int\<close>: it is converted to \<^verbatim>\<open>unsigned long\<close> when stored, and
  \<^verbatim>\<open>++value\<close> at \<^verbatim>\<open>INT_MAX\<close> overflows.
\<close>

fun iota :: "ulong list \<Rightarrow> int \<Rightarrow> ulong list option" where
  "iota [] val = Some []"
| "iota (c # cs) val =
     (if int_max \<le> val then None
      else Option.bind (iota cs (val + 1)) (\<lambda>r. Some (of_int val # r)))"

text \<open>\<^verbatim>\<open>l.erase(v)\<close>: drops the element at offset \<open>v\<close>; the returned iterator has the same offset.\<close>

definition erase :: "'a list \<Rightarrow> nat \<Rightarrow> 'a list" where
  "erase l v = take v l @ drop (Suc v) l"

text \<open>
  The inner \<^verbatim>\<open>while (v != l.end())\<close> loop of \<^verbatim>\<open>simplest\<close>.  The test
  \<^verbatim>\<open>*v > n && *v % n == 0\<close> divides only when its left operand holds.
\<close>

function erase_loop :: "ulong \<Rightarrow> nat \<Rightarrow> ulong list \<Rightarrow> ulong list option" where
  "erase_loop n v l =
     (if v \<noteq> length l then
        (if v < length l then
           (if l ! v > n then
              (if n = 0 then None
               else if (l ! v) mod n = 0 then erase_loop n v (erase l v)
               else erase_loop n (v + 1) l)
            else erase_loop n (v + 1) l)
         else None)
      else Some l)"
  by pat_completeness auto
termination
  by (relation "measure (\<lambda>(n, v, l). 2 * length l - v)") (auto simp: erase_def)

text \<open>The outer \<^verbatim>\<open>for (auto n = 2ul; n <= count; ++n)\<close> loop.\<close>

partial_function (option) simplest_loop :: "ulong \<Rightarrow> ulong \<Rightarrow> ulong list \<Rightarrow> ulong list option" where
  "simplest_loop count n l =
     (if n \<le> count then Option.bind (erase_loop n 0 l) (simplest_loop count (n + 1))
      else Some l)"

text \<open>
  \<^verbatim>\<open>vector<unsigned long> l(count)\<close> creates \<open>count\<close> cells holding 0, if storage can hold
  them.
\<close>

definition simplest :: "nat \<Rightarrow> ulong \<Rightarrow> ulong list option" where
  "simplest cap count =
     (if can_hold cap (unat count)
      then Option.bind (iota (replicate (unat count) 0) 1) (simplest_loop count 2)
      else None)"

section \<open>The list variant: \<^verbatim>\<open>using_remove_if\<close>\<close>

text \<open>
  \<^verbatim>\<open>forward_list::remove_if(pred)\<close>: one pass over the list, in order, unlinking every
  element for which the predicate holds.
\<close>

fun remove_if :: "('a \<Rightarrow> bool option) \<Rightarrow> 'a list \<Rightarrow> 'a list option" where
  "remove_if pred [] = Some []"
| "remove_if pred (x # xs) =
     Option.bind (pred x) (\<lambda>b.
       Option.bind (remove_if pred xs) (\<lambda>r. Some (if b then r else x # r)))"

text \<open>The lambda \<^verbatim>\<open>[&n] (const unsigned long& value)\<close>.\<close>

definition is_multiple :: "ulong \<Rightarrow> ulong \<Rightarrow> bool option" where
  "is_multiple n val =
     (if val > n then (if n = 0 then None else Some (val mod n = 0)) else Some False)"

partial_function (option) remove_if_loop :: "ulong \<Rightarrow> ulong \<Rightarrow> ulong list \<Rightarrow> ulong list option" where
  "remove_if_loop count n l =
     (if n \<le> count then Option.bind (remove_if (is_multiple n) l) (remove_if_loop count (n + 1))
      else Some l)"

definition using_remove_if :: "nat \<Rightarrow> ulong \<Rightarrow> ulong list option" where
  "using_remove_if cap count =
     (if can_hold cap (unat count)
      then Option.bind (iota (replicate (unat count) 0) 1) (remove_if_loop count 2)
      else None)"

section \<open>The flag sieve: \<^verbatim>\<open>optimal_case\<close>\<close>

text \<open>Reading and writing a flag through an iterator at offset \<open>i\<close>.\<close>

definition load :: "bool list \<Rightarrow> nat \<Rightarrow> bool option" where
  "load flags i = (if i < length flags then Some (flags ! i) else None)"

definition store :: "bool list \<Rightarrow> nat \<Rightarrow> bool \<Rightarrow> bool list option" where
  "store flags i b = (if i < length flags then Some (flags[i := b]) else None)"

text \<open>\<^verbatim>\<open>while (i < flags.end()) { *i = false; advance(i, n); }\<close>\<close>

partial_function (option) clear_multiples :: "ulong \<Rightarrow> nat \<Rightarrow> bool list \<Rightarrow> bool list option" where
  "clear_multiples n i flags =
     (if i < length flags
      then Option.bind (store flags i False) (clear_multiples n (i + unat n))
      else Some flags)"

text \<open>
  The body of the outer loop, for one \<open>n\<close>: the iterator is advanced by \<open>n\<close> from
  \<^verbatim>\<open>begin()\<close> and read; if the flag is set it is advanced by \<open>n\<close> again and the inner
  loop runs from there.
\<close>

definition sieve_step :: "ulong \<Rightarrow> bool list \<Rightarrow> bool list option" where
  "sieve_step n flags =
     Option.bind (load flags (unat n)) (\<lambda>b.
       if b = False then Some flags
       else clear_multiples n (unat n + unat n) flags)"

text \<open>\<^verbatim>\<open>for (auto n = 2ul; n <= (flags.size() / 2); ++n)\<close>\<close>

partial_function (option) sieve_loop :: "ulong \<Rightarrow> bool list \<Rightarrow> bool list option" where
  "sieve_loop n flags =
     (if n \<le> (of_nat (length flags) :: ulong) div 2
      then Option.bind (sieve_step n flags) (sieve_loop (n + 1))
      else Some flags)"

text \<open>
  \<^verbatim>\<open>l.push_back(x)\<close>: the vector grows by one element, if storage can hold it.  How much
  the library asks for when a vector outgrows what it has reserved is its own policy;
  the model asks for the new size.
\<close>

definition push_back :: "nat \<Rightarrow> ulong list \<Rightarrow> ulong \<Rightarrow> ulong list option" where
  "push_back cap l x = (if can_hold cap (length l + 1) then Some (l @ [x]) else None)"

text \<open>The copy loop: every offset other than \<^verbatim>\<open>begin()\<close> whose flag is set is appended.\<close>

function copy_loop :: "nat \<Rightarrow> nat \<Rightarrow> bool list \<Rightarrow> ulong list \<Rightarrow> ulong list option" where
  "copy_loop cap i flags l =
     (if i \<noteq> length flags then
        (if i < length flags then
           (if i \<noteq> 0 \<and> flags ! i = True
            then Option.bind (push_back cap l (of_nat i)) (copy_loop cap (i + 1) flags)
            else copy_loop cap (i + 1) flags l)
         else None)
      else Some l)"
  by pat_completeness auto
termination
  by (relation "measure (\<lambda>(cap, i, flags, l). length flags - i)") auto

text \<open>
  \<^verbatim>\<open>vector<bool> flags(count + 1, true)\<close>, if storage can hold them, and the sieve loop on
  them.
\<close>

definition sieve_pass :: "nat \<Rightarrow> ulong \<Rightarrow> bool list option" where
  "sieve_pass cap count =
     (if can_hold cap (unat (count + 1))
      then sieve_loop 2 (replicate (unat (count + 1)) True)
      else None)"

text \<open>
  After the sieve pass, \<^verbatim>\<open>l.reserve(count / 2)\<close> on the empty result, refused when storage
  cannot hold that many elements, and the copy loop.
\<close>

definition optimal_case :: "nat \<Rightarrow> ulong \<Rightarrow> ulong list option" where
  "optimal_case cap count =
     Option.bind (sieve_pass cap count) (\<lambda>flags.
       if can_hold cap (unat (count div 2)) then copy_loop cap 0 flags [] else None)"

section \<open>The report: \<^verbatim>\<open>time_and_print_result\<close>\<close>

text \<open>
  The elapsed time \<^verbatim>\<open>t1 - t0\<close> is a signed count of nanoseconds.
  \<^verbatim>\<open>duration_cast<milliseconds>\<close> divides it by \<open>10\<^sup>6\<close>, truncating towards zero, and
  \<^verbatim>\<open>operator<<\<close> writes a count in decimal.
\<close>

definition digit :: "int \<Rightarrow> char" where
  "digit d = char_of (48 + d)"

function show_digits :: "int \<Rightarrow> string" where
  "show_digits i = (if i < 10 then [digit i] else show_digits (i div 10) @ [digit (i mod 10)])"
  by pat_completeness auto
termination
  by (relation "measure nat") auto

definition show_long :: "int \<Rightarrow> string" where
  "show_long i = (if i < 0 then CHR ''-'' # show_digits (- i) else show_digits i)"

definition to_milliseconds :: "int \<Rightarrow> int" where
  "to_milliseconds d = d sdiv 1000000"

text \<open>The line written by the \<^verbatim>\<open>if\<close> at the head of the report (without the line end).\<close>

definition elapsed_line :: "int \<Rightarrow> string" where
  "elapsed_line d =
     (if to_milliseconds d > 0
      then ''  executed in '' @ show_long (to_milliseconds d) @ '' ms''
      else ''  executed in '' @ show_long d @ '' ns'')"

section \<open>Primes\<close>

definition is_prime :: "nat \<Rightarrow> bool" where
  "is_prime p = (1 < p \<and> (\<forall>d \<in> {2..<p}. \<not> d dvd p))"

text \<open>The primes in \<open>[2, N]\<close>, ascending.\<close>

definition primes_upto :: "nat \<Rightarrow> nat list" where
  "primes_upto N = filter is_prime [2..<Suc N]"

text \<open>The same sequence as \<^verbatim>\<open>unsigned long\<close> values, for the bound \<open>count\<close>.\<close>

definition primes_seq :: "ulong \<Rightarrow> ulong list" where
  "primes_seq count = map of_nat (primes_upto (unat count))"

definition one_and_primes :: "nat \<Rightarrow> nat list" where
  "one_and_primes N = filter (\<lambda>k. k = 1 \<or> is_prime k) [1..<Suc N]"

section \<open>Auxiliary notions for the proofs\<close>

text \<open>No \<open>m\<close> with \<open>a \<le> m \<le> b\<close> is a divisor of \<open>x\<close> below \<open>x\<close>.\<close>

definition survives :: "nat \<Rightarrow> nat \<Rightarrow> nat \<Rightarrow> bool" where
  "survives a b x = (\<forall>m \<in> {a..b}. \<not> (m < x \<and> m dvd x))"

text \<open>The flags with every offset \<open>i, i + p, i + 2p, \<dots>\<close> cleared.\<close>

definition strike_from :: "nat \<Rightarrow> nat \<Rightarrow> bool list \<Rightarrow> bool list" where
  "strike_from p i flags = map (\<lambda>k. flags ! k \<and> \<not> (i \<le> k \<and> p dvd (k - i))) [0..<length flags]"

text \<open>The loop invariant of the sieve pass, after the rounds \<open>2, \<dots>, b\<close>.\<close>

definition sieved :: "nat \<Rightarrow> bool list \<Rightarrow> bool" where
  "sieved b flags = (\<forall>k < length flags. flags ! k = survives 2 b k)"

text \<open>The body of the sieve's outer loop, run for each \<open>n\<close> of a list in turn.\<close>

fun sieve_steps :: "nat list \<Rightarrow> bool list \<Rightarrow> bool list option" where
  "sieve_steps [] flags = Some flags"
| "sieve_steps (n # ns) flags = Option.bind (sieve_step (of_nat n) flags) (sieve_steps ns)"

section \<open>Counting the primes below a bound\<close>

text \<open>
  An incremental sieve over the odd numbers \<open>3, 5, 7, \<dots>\<close>, written with binary numerals
  only, so that the simplifier can run it.  Each odd prime \<open>p\<close> found among the first
  \<open>r\<close> odd numbers has a counter \<open>(p, c)\<close>: the number under test is a multiple of \<open>p\<close>
  exactly when \<open>c\<close> is one.  \<open>run k r h cs acc\<close> tests \<open>k\<close> odd numbers, starting at
  \<open>2h + 1\<close> while \<open>r > 0\<close>, and adds the number of primes among them to \<open>acc\<close>:
  \<open>tick\<close> advances every counter by one odd number and reports a multiple, \<open>fin\<close>
  books the number under test, \<open>more\<close> decrements \<open>k\<close>.  None of this is code of the
  program: it serves to evaluate \<open>length (primes_upto 50000)\<close>.
\<close>

definition prime_count :: "nat \<Rightarrow> nat \<Rightarrow> nat" where
  "prime_count a b = length (filter is_prime [a..<b])"

fun adv :: "num \<times> num \<Rightarrow> num \<times> num" where
  "adv (p, num.One) = (p, p)"
| "adv (p, num.Bit0 c) = (p, Num.BitM c)"
| "adv (p, num.Bit1 c) = (p, num.Bit0 c)"

fun tick :: "(num \<times> num) list \<Rightarrow> (num \<times> num) list \<Rightarrow> bool \<Rightarrow> (num \<times> num) list \<times> bool" where
  "tick [] acc hit = (acc, hit)"
| "tick ((p, num.One) # cs) acc hit = tick cs ((p, p) # acc) True"
| "tick ((p, num.Bit0 c) # cs) acc hit = tick cs ((p, Num.BitM c) # acc) hit"
| "tick ((p, num.Bit1 c) # cs) acc hit = tick cs ((p, num.Bit0 c) # acc) hit"

lemma nat_of_num_BitM: "nat_of_num (Num.BitM c) = 2 * nat_of_num c - 1"
proof (induction c)
  case One
  show ?case by simp
next
  case (Bit0 c)
  with nat_of_num_pos [of c] show ?case by simp
next
  case (Bit1 c)
  show ?case by simp
qed

function run :: "num \<Rightarrow> nat \<Rightarrow> num \<Rightarrow> (num \<times> num) list \<Rightarrow> num \<Rightarrow> num"
  and fin :: "num \<Rightarrow> nat \<Rightarrow> num \<Rightarrow> (num \<times> num) list \<times> bool \<Rightarrow> num \<Rightarrow> num"
  and more :: "num \<Rightarrow> nat \<Rightarrow> num \<Rightarrow> (num \<times> num) list \<Rightarrow> num \<Rightarrow> num" where
  "run k r h cs acc = fin k r h (tick cs [] False) acc"
| "fin k 0 h (cs, True) acc = more k 0 h cs acc"
| "fin k (Suc r) h (cs, True) acc = more k r (Num.inc h) cs acc"
| "fin k 0 h (cs, False) acc = more k 0 h cs (Num.inc acc)"
| "fin k (Suc r) h (cs, False) acc =
     more k r (Num.inc h) ((num.Bit1 h, num.Bit1 h) # cs) (Num.inc acc)"
| "more num.One r h cs acc = acc"
| "more (num.Bit0 n) r h cs acc = run (Num.BitM n) r h cs acc"
| "more (num.Bit1 n) r h cs acc = run (num.Bit0 n) r h cs acc"
  by pat_completeness auto
termination
proof (relation "measure (\<lambda>x. case x of Inl (k, _) \<Rightarrow> 3 * nat_of_num k + 2
       | Inr (Inl (k, _)) \<Rightarrow> 3 * nat_of_num k + 1 | Inr (Inr (k, _)) \<Rightarrow> 3 * nat_of_num k)",
    goal_cases)
  case (7 n r h cs acc)
  with nat_of_num_pos [of n] show ?case by (simp add: nat_of_num_BitM)
qed simp_all

fun unary :: "num \<Rightarrow> nat" where
  "unary num.One = Suc 0"
| "unary (num.Bit0 n) = (let m = unary n in m + m)"
| "unary (num.Bit1 n) = Suc (let m = unary n in m + m)"

definition counters_ok :: "nat \<Rightarrow> nat \<Rightarrow> (num \<times> num) list \<Rightarrow> bool" where
  "counters_ok m L cs =
     ((\<forall>x \<in> set cs. odd (nat_of_num (fst x)) \<and> nat_of_num (snd x) \<le> nat_of_num (fst x) \<and>
          nat_of_num (fst x) dvd m + 2 * (nat_of_num (snd x) - 1)) \<and>
      (\<lambda>x. nat_of_num (fst x)) ` set cs = {p. is_prime p \<and> odd p \<and> p < m \<and> p \<le> L})"

declare run.simps [simp del] fin.simps [simp del] more.simps [simp del]

declare erase_loop.simps [simp del] copy_loop.simps [simp del] show_digits.simps [simp del]

declare simplest_loop.simps [code] remove_if_loop.simps [code]
  clear_multiples.simps [code] sieve_loop.simps [code]

section \<open>Properties of the model\<close>

lemma iota_eq:
  "val \<le> int_max \<Longrightarrow>
   iota cs val =
     (if val + int (length cs) \<le> int_max
      then Some (map (\<lambda>i. of_int (val + int i)) [0..<length cs]) else None)"
proof (induction cs arbitrary: val)
  case Nil
  then show ?case by simp
next
  case (Cons c cs)
  have up: "[0..<Suc (length cs)] = 0 # map Suc [0..<length cs]"
    by (simp only: upt_conv_Cons [of 0] zero_less_Suc if_True map_Suc_upt)
  have sh: "map (\<lambda>i. of_int (val + 1 + int i) :: ulong) [0..<length cs] =
            map (\<lambda>i. of_int (val + int i)) (map Suc [0..<length cs])"
    by (simp add: comp_def ac_simps del: upt_Suc)
  show ?case
  proof (cases "int_max \<le> val")
    case True
    with Cons.prems show ?thesis by simp
  next
    case False
    then have le: "val + 1 \<le> int_max" by simp
    show ?thesis
    proof (cases "val + 1 + int (length cs) \<le> int_max")
      case t: True
      then have "val + int (length (c # cs)) \<le> int_max" by simp
      moreover have "iota (c # cs) val =
          Some (of_int val # map (\<lambda>i. of_int (val + int i)) (map Suc [0..<length cs]))"
        using Cons.IH [OF le] False t by (simp only: iota.simps if_False if_True sh Option.bind.simps)
      ultimately show ?thesis
        by (simp add: up del: upt_Suc)
    next
      case f: False
      then have "\<not> val + int (length (c # cs)) \<le> int_max" by simp
      moreover have "iota (c # cs) val = None"
        using Cons.IH [OF le] False f by simp
      ultimately show ?thesis by (simp only: if_False)
    qed
  qed
qed

lemma iota_seed:
  "iota (replicate N 0) 1 =
     (if int N + 1 \<le> int_max then Some (map of_nat [1..<Suc N]) else None)"
proof -
  have u: "[1..<Suc N] = map Suc [0..<N]"
    by (simp only: map_Suc_upt One_nat_def)
  have m: "map (\<lambda>i. of_int (1 + int i) :: ulong) [0..<N] = map of_nat [1..<Suc N]"
    unfolding u by (simp add: comp_def ac_simps del: upt_Suc)
  have "(1 :: int) \<le> int_max" by (simp add: int_max_def)
  from iota_eq [OF this, of "replicate N 0"] show ?thesis
    by (simp only: length_replicate m add.commute [of 1 "int N"])
qed

lemma can_hold_mono: "can_hold cap n \<Longrightarrow> m \<le> n \<Longrightarrow> can_hold cap m"
  by (simp add: can_hold_def)

lemma can_hold_no_wrap: "can_hold cap n \<Longrightarrow> n < 2 ^ 64"
  by (simp add: can_hold_def max_size_def)

lemma below_int_max:
  fixes count :: ulong
  shows "(count < 2147483647) = (int (unat count) + 1 \<le> int_max)"
proof -
  have "(count < 2147483647) = (unat count < 2147483647)"
    by (simp add: word_less_nat_alt)
  also have "\<dots> = (int (unat count) < int 2147483647)"
    by (simp only: of_nat_less_iff)
  also have "\<dots> = (int (unat count) + 1 \<le> int_max)"
    unfolding int_max_def by (simp del: of_nat_unat) linarith
  finally show ?thesis .
qed

lemma remove_if_filter:
  "n \<noteq> 0 \<Longrightarrow> remove_if (is_multiple n) l = Some (filter (\<lambda>x. \<not> (x > n \<and> x mod n = 0)) l)"
  by (induction l) (auto simp: is_multiple_def)

lemma erase_loop_remove_if:
  "v \<le> length l \<Longrightarrow>
   erase_loop n v l = map_option (\<lambda>r. take v l @ r) (remove_if (is_multiple n) (drop v l))"
proof (induction n v l rule: erase_loop.induct)
  case (1 n v l)
  show ?case
  proof (cases "v = length l")
    case True
    then show ?thesis by (subst erase_loop.simps) simp
  next
    case False
    with "1.prems" have lt: "v < length l" by simp
    have dr: "drop v l = l ! v # drop (Suc v) l"
      using lt by (simp add: Cons_nth_drop_Suc)
    have tk: "take (Suc v) l = take v l @ [l ! v]"
      using lt by (simp add: take_Suc_conv_app_nth)
    have el: "length (erase l v) = length l - 1" "take v (erase l v) = take v l"
      "drop v (erase l v) = drop (Suc v) l"
      using lt by (simp_all add: erase_def)
    consider (fault) "l ! v > n" "n = 0"
      | (hit) "l ! v > n" "n \<noteq> 0" "(l ! v) mod n = 0"
      | (miss) "\<not> (l ! v > n \<and> (l ! v) mod n = 0)" "\<not> (l ! v > n \<and> n = 0)"
      by blast
    then show ?thesis
    proof cases
      case fault
      then have "is_multiple n (l ! v) = None" by (simp add: is_multiple_def)
      then show ?thesis
        using lt fault by (subst erase_loop.simps) (simp add: dr)
    next
      case hit
      have "erase_loop n v l = erase_loop n v (erase l v)"
        using lt hit by (subst erase_loop.simps) simp
      also have "\<dots> = map_option (\<lambda>r. take v (erase l v) @ r)
                         (remove_if (is_multiple n) (drop v (erase l v)))"
        using "1.IH"(1) [OF False lt hit(1) hit(2) hit(3)] lt el(1) by simp
      finally show ?thesis
        using hit by (simp add: el dr is_multiple_def [of n "l ! v"])
    next
      case miss
      have "erase_loop n v l = erase_loop n (v + 1) l"
        using lt miss by (subst erase_loop.simps) auto
      also have "\<dots> = map_option (\<lambda>r. take (v + 1) l @ r)
                         (remove_if (is_multiple n) (drop (v + 1) l))"
      proof (cases "l ! v > n")
        case True
        with miss have "n \<noteq> 0" "(l ! v) mod n \<noteq> 0" by auto
        then show ?thesis using "1.IH"(2) [OF False lt True] lt by simp
      next
        case False
        then show ?thesis using "1.IH"(3) [OF \<open>v \<noteq> length l\<close> lt False] lt by simp
      qed
      finally show ?thesis
        using miss by (cases "remove_if (is_multiple n) (drop (Suc v) l)")
          (auto simp: dr tk is_multiple_def [of n "l ! v"])
    qed
  qed
qed

lemma erase_loop_0: "erase_loop n 0 l = remove_if (is_multiple n) l"
  using erase_loop_remove_if [of 0 l n] by (simp add: option.map_ident)

lemma simplest_loop_imp:
  assumes "simplest_loop count n l = Some r"
  shows "remove_if_loop count n l = Some r"
  using assms
proof (induct rule: simplest_loop.raw_induct [rotated 1, consumes 1])
  case (1 f count n l r)
  show ?case
  proof (cases "n \<le> count")
    case True
    with "1"(2) obtain l' where
      e: "remove_if (is_multiple n) l = Some l'" and f: "f count (n + 1) l' = Some r"
      by (auto simp: erase_loop_0 bind_eq_Some_conv)
    from "1"(1) [OF f] e True show ?thesis
      by (subst remove_if_loop.simps) simp
  next
    case False
    with "1"(2) show ?thesis
      by (subst remove_if_loop.simps) simp
  qed
qed

lemma remove_if_loop_imp:
  assumes "remove_if_loop count n l = Some r"
  shows "simplest_loop count n l = Some r"
  using assms
proof (induct rule: remove_if_loop.raw_induct [rotated 1, consumes 1])
  case (1 f count n l r)
  show ?case
  proof (cases "n \<le> count")
    case True
    with "1"(2) obtain l' where
      e: "erase_loop n 0 l = Some l'" and f: "f count (n + 1) l' = Some r"
      by (auto simp: erase_loop_0 bind_eq_Some_conv)
    from "1"(1) [OF f] e True show ?thesis
      by (subst simplest_loop.simps) simp
  next
    case False
    with "1"(2) show ?thesis
      by (subst simplest_loop.simps) simp
  qed
qed

lemma loops_agree: "remove_if_loop count n l = simplest_loop count n l"
proof (cases "simplest_loop count n l")
  case None
  then show ?thesis
    using remove_if_loop_imp [of count n l] by (cases "remove_if_loop count n l") auto
next
  case (Some r)
  then show ?thesis by (simp add: simplest_loop_imp)
qed

lemma survives_step:
  "a \<le> b \<Longrightarrow> survives a b x = (\<not> (a < x \<and> a dvd x) \<and> survives (Suc a) b x)"
proof -
  assume "a \<le> b"
  then have "{a..b} = insert a {Suc a..b}" by auto
  then show ?thesis by (simp add: survives_def)
qed

lemma survives_empty: "b < a \<Longrightarrow> survives a b x"
  by (simp add: survives_def)

lemma word_multiple_nat:
  fixes n x :: ulong
  assumes "n \<noteq> 0"
  shows "(x > n \<and> x mod n = 0) = (unat n < unat x \<and> unat n dvd unat x)"
proof -
  have "(x mod n = 0) = (unat (x mod n) = 0)"
    by (simp add: unat_eq_0)
  also have "\<dots> = (unat n dvd unat x)"
    by (simp add: unat_mod dvd_eq_mod_eq_0)
  finally show ?thesis
    by (simp add: word_less_nat_alt)
qed

lemma simplest_loop_filter:
  fixes count n :: ulong
  assumes "unat count + 1 < 2 ^ 64" and "n \<noteq> 0"
  shows "simplest_loop count n l =
         Some (filter (\<lambda>x. survives (unat n) (unat count) (unat x)) l)"
  using assms(2)
proof (induction "Suc (unat count) - unat n" arbitrary: n l)
  case 0
  then have "\<not> n \<le> count" by (simp add: word_le_nat_alt)
  moreover from 0 have "unat count < unat n" by simp
  ultimately show ?case
    by (subst simplest_loop.simps) (simp add: survives_empty)
next
  case (Suc k)
  then have le: "n \<le> count" "unat n \<le> unat count"
    by (simp_all add: word_le_nat_alt)
  have un: "unat (n + 1) = Suc (unat n)"
    using le(2) assms(1) by (simp add: unat_word_ariths)
  then have nz: "n + 1 \<noteq> 0" by (metis Zero_not_Suc unat_0)
  have k: "k = Suc (unat count) - unat (n + 1)"
    using Suc.hyps(2) un by simp
  have "simplest_loop count n l =
        simplest_loop count (n + 1) (filter (\<lambda>x. \<not> (x > n \<and> x mod n = 0)) l)"
    using le(1) Suc.prems
    by (subst simplest_loop.simps) (simp add: erase_loop_0 remove_if_filter)
  also have "\<dots> = Some (filter (\<lambda>x. survives (unat (n + 1)) (unat count) (unat x))
                      (filter (\<lambda>x. \<not> (x > n \<and> x mod n = 0)) l))"
    by (rule Suc.hyps(1) [OF k nz])
  also have "\<dots> = Some (filter (\<lambda>x. survives (unat n) (unat count) (unat x)) l)"
    using le(2) Suc.prems
    by (auto simp: un word_multiple_nat survives_step [of "unat n"] intro!: filter_cong)
  finally show ?case .
qed

lemma one_and_primes_Cons: "1 \<le> N \<Longrightarrow> one_and_primes N = 1 # primes_upto N"
proof -
  assume "1 \<le> N"
  then have "[1..<Suc N] = 1 # [2..<Suc N]"
    by (simp add: upt_conv_Cons numeral_2_eq_2 del: upt_Suc)
  moreover have "filter (\<lambda>k. k = 1 \<or> is_prime k) [2..<Suc N] = filter is_prime [2..<Suc N]"
    by (rule filter_cong) auto
  ultimately show ?thesis
    by (simp add: one_and_primes_def primes_upto_def del: upt_Suc)
qed

lemma one_and_primes_0: "one_and_primes 0 = []"
  by (simp add: one_and_primes_def)

lemma survives_prime:
  assumes "1 \<le> k" and "k \<le> N"
  shows "survives 2 N k = (k = 1 \<or> is_prime k)"
proof
  assume s: "survives 2 N k"
  show "k = 1 \<or> is_prime k"
  proof (cases "k = 1")
    case False
    with assms have "1 < k" by simp
    moreover have "\<not> d dvd k" if "d \<in> {2..<k}" for d
      using s that assms(2) by (auto simp: survives_def)
    ultimately show ?thesis by (simp add: is_prime_def)
  qed simp
next
  assume "k = 1 \<or> is_prime k"
  then show "survives 2 N k"
    by (auto simp: survives_def is_prime_def)
qed

lemma unat_of_nat_ulong: "k < 2 ^ 64 \<Longrightarrow> unat (of_nat k :: ulong) = k"
  by (simp add: unat_of_nat)

lemma simplest_correct:
  fixes count :: ulong
  assumes "can_hold cap (unat count)" and "count < 2147483647"
  shows "simplest cap count = Some (map of_nat (one_and_primes (unat count)))"
proof -
  let ?N = "unat count"
  have b: "?N + 1 < 2 ^ 64"
    using assms(2) by (simp add: word_less_nat_alt)
  have seed: "iota (replicate ?N 0) 1 = Some (map of_nat [1..<Suc ?N])"
    using assms(2) by (simp only: iota_seed below_int_max if_True)
  have "simplest cap count =
        Some (filter (\<lambda>x. survives 2 ?N (unat x)) (map of_nat [1..<Suc ?N]))"
    using simplest_loop_filter [OF b, of 2] assms(1) by (simp add: simplest_def seed del: upt_Suc)
  also have "filter (\<lambda>x. survives 2 ?N (unat x)) (map of_nat [1..<Suc ?N] :: ulong list) =
             map of_nat (filter (\<lambda>k. survives 2 ?N (unat (of_nat k :: ulong))) [1..<Suc ?N])"
    by (simp add: filter_map comp_def del: upt_Suc)
  also have "filter (\<lambda>k. survives 2 ?N (unat (of_nat k :: ulong))) [1..<Suc ?N] =
             one_and_primes ?N"
    unfolding one_and_primes_def
  proof (rule filter_cong [OF refl])
    fix k assume "k \<in> set [1..<Suc ?N]"
    then have k: "1 \<le> k" "k \<le> ?N" by auto
    with b have "unat (of_nat k :: ulong) = k"
      by (intro unat_of_nat_ulong) simp
    then show "survives 2 ?N (unat (of_nat k :: ulong)) = (k = 1 \<or> is_prime k)"
      using survives_prime [OF k] by simp
  qed
  finally show ?thesis .
qed

lemma simplest_overflow:
  fixes count :: ulong
  assumes "2147483647 \<le> count"
  shows "simplest cap count = None"
proof -
  from assms have "\<not> count < 2147483647" by simp
  then have "iota (replicate (unat count) 0) 1 = None"
    by (simp only: iota_seed below_int_max if_False)
  then show ?thesis by (simp add: simplest_def)
qed

lemma using_remove_if_simplest: "using_remove_if cap count = simplest cap count"
proof -
  have "remove_if_loop count 2 = simplest_loop count 2"
    by (intro ext) (rule loops_agree)
  then show ?thesis by (simp add: using_remove_if_def simplest_def)
qed

lemma length_strike_from [simp]: "length (strike_from p i flags) = length flags"
  by (simp add: strike_from_def)

lemma nth_strike_from:
  "k < length flags \<Longrightarrow> strike_from p i flags ! k = (flags ! k \<and> \<not> (i \<le> k \<and> p dvd (k - i)))"
  by (simp add: strike_from_def)

lemma strike_from_past: "length flags \<le> i \<Longrightarrow> strike_from p i flags = flags"
  by (rule nth_equalityI) (simp_all add: nth_strike_from)

lemma dvd_shift:
  fixes p i k :: nat
  assumes "0 < p" and "k \<noteq> i"
  shows "(i + p \<le> k \<and> p dvd (k - (i + p))) = (i \<le> k \<and> p dvd (k - i))"
proof (cases "i + p \<le> k")
  case True
  then have "k - i = (k - (i + p)) + p" by simp
  then have "p dvd (k - i) = (p dvd (k - (i + p)))"
    by (metis dvd_add_triv_right_iff)
  with True show ?thesis by auto
next
  case False
  have "\<not> (i \<le> k \<and> p dvd (k - i))"
  proof
    assume a: "i \<le> k \<and> p dvd (k - i)"
    with assms(2) have "0 < k - i" by simp
    with a have "p \<le> k - i" by (simp add: dvd_imp_le)
    with a False show False by simp
  qed
  with False show ?thesis by simp
qed

lemma strike_from_step:
  assumes "0 < p" and "i < length flags"
  shows "strike_from p (i + p) (flags[i := False]) = strike_from p i flags"
proof (rule nth_equalityI)
  show "length (strike_from p (i + p) (flags[i := False])) = length (strike_from p i flags)"
    by simp
next
  fix k assume "k < length (strike_from p (i + p) (flags[i := False]))"
  then have k: "k < length flags" by simp
  show "strike_from p (i + p) (flags[i := False]) ! k = strike_from p i flags ! k"
  proof (cases "k = i")
    case True
    with k show ?thesis by (simp add: nth_strike_from)
  next
    case False
    with k dvd_shift [OF assms(1) False] show ?thesis
      by (simp add: nth_strike_from)
  qed
qed

lemma clear_multiples_eq:
  assumes "0 < unat n"
  shows "clear_multiples n i flags = Some (strike_from (unat n) i flags)"
proof (induction "length flags - i" arbitrary: i flags rule: less_induct)
  case less
  show ?case
  proof (cases "i < length flags")
    case True
    have "clear_multiples n i flags = clear_multiples n (i + unat n) (flags[i := False])"
      using True by (subst clear_multiples.simps) (simp add: store_def)
    also have "\<dots> = Some (strike_from (unat n) (i + unat n) (flags[i := False]))"
      using True assms by (intro less.hyps) simp
    finally show ?thesis
      using strike_from_step [OF assms True] by simp
  next
    case False
    then show ?thesis
      by (subst clear_multiples.simps) (simp add: strike_from_past)
  qed
qed

lemma multiple_from_double:
  fixes n k :: nat
  assumes "0 < n"
  shows "(n + n \<le> k \<and> n dvd (k - (n + n))) = (n < k \<and> n dvd k)"
proof (cases "n + n \<le> k")
  case True
  then have "k = (k - (n + n)) + (n + n)" by simp
  then have "n dvd k = (n dvd (k - (n + n)))"
    by (metis dvd_add_left_iff dvd_add_triv_left_iff)
  with True assms show ?thesis by auto
next
  case False
  have "\<not> (n < k \<and> n dvd k)"
  proof
    assume a: "n < k \<and> n dvd k"
    then obtain q where q: "k = n * q" by (auto simp: dvd_def)
    with a have "q \<noteq> 0" "q \<noteq> 1" by auto
    then have "2 \<le> q" by simp
    then have "n * 2 \<le> n * q" by (rule mult_le_mono2)
    with q False show False by simp
  qed
  with False show ?thesis by simp
qed

lemma sieve_step_sieved:
  fixes n :: ulong
  assumes "2 \<le> unat n" and "unat n < length flags" and "sieved (unat n - 1) flags"
  shows "\<exists>flags'. sieve_step n flags = Some flags' \<and> length flags' = length flags \<and>
                   sieved (unat n) flags'"
proof -
  let ?n = "unat n"
  have pos: "0 < ?n" using assms(1) by simp
  have step: "survives 2 ?n k = (\<not> (?n < k \<and> ?n dvd k) \<and> survives 2 (?n - 1) k)" for k
  proof -
    have "{2..?n} = insert ?n {2..?n - 1}" using assms(1) by auto
    then show ?thesis by (auto simp: survives_def)
  qed
  show ?thesis
  proof (cases "flags ! ?n")
    case False
    then have "\<not> survives 2 (?n - 1) ?n"
      using assms(2,3) by (simp add: sieved_def)
    then obtain d where d: "2 \<le> d" "d \<le> ?n - 1" "d < ?n" "d dvd ?n"
      by (auto simp: survives_def)
    have "survives 2 ?n k = survives 2 (?n - 1) k" for k
    proof (cases "?n < k \<and> ?n dvd k")
      case True
      with d have "d < k \<and> d dvd k" by (auto intro: dvd_trans)
      with d have "\<not> survives 2 (?n - 1) k" by (auto simp: survives_def)
      then show ?thesis by (simp add: step)
    next
      case False
      then show ?thesis by (simp add: step)
    qed
    then have "sieved ?n flags"
      using assms(3) by (simp add: sieved_def)
    moreover have "sieve_step n flags = Some flags"
      using False assms(2) by (simp add: sieve_step_def load_def)
    ultimately show ?thesis by simp
  next
    case True
    have "sieve_step n flags = Some (strike_from ?n (?n + ?n) flags)"
      using True assms(2) by (simp add: sieve_step_def load_def clear_multiples_eq [OF pos])
    moreover have "sieved ?n (strike_from ?n (?n + ?n) flags)"
      using assms(3) multiple_from_double [OF pos]
      by (auto simp: sieved_def nth_strike_from step)
    ultimately show ?thesis by simp
  qed
qed

lemma half_size:
  fixes n :: ulong
  assumes "L < 2 ^ 64"
  shows "(n \<le> (of_nat L :: ulong) div 2) = (unat n \<le> L div 2)"
proof -
  have "unat ((of_nat L :: ulong) div 2) = L div 2"
    using assms by (simp add: unat_div unat_of_nat)
  then show ?thesis by (simp add: word_le_nat_alt)
qed

lemma unat_succ:
  fixes n :: ulong
  assumes "unat n + 1 < 2 ^ 64"
  shows "unat (n + 1) = Suc (unat n)"
  using assms by (simp add: unat_word_ariths)

lemma sieve_loop_sieved:
  fixes n :: ulong
  assumes "length flags = L" and "L < 2 ^ 64" and "2 \<le> unat n"
    and "sieved (unat n - 1) flags"
  shows "\<exists>flags'. sieve_loop n flags = Some flags' \<and> length flags' = L \<and>
                   sieved (max (unat n - 1) (L div 2)) flags'"
  using assms(1,3,4)
proof (induction "Suc (L div 2) - unat n" arbitrary: n flags)
  case 0
  then have "\<not> unat n \<le> L div 2" by simp
  then have "sieve_loop n flags = Some flags"
    using "0.prems"(1) by (subst sieve_loop.simps) (simp add: half_size [OF assms(2)])
  moreover have "max (unat n - 1) (L div 2) = unat n - 1"
    using \<open>\<not> unat n \<le> L div 2\<close> by simp
  ultimately show ?case using "0.prems" by simp
next
  case (Suc j)
  then have le: "unat n \<le> L div 2" by simp
  with Suc.prems(2) have lt: "unat n < length flags"
    using Suc.prems(1) by simp
  from sieve_step_sieved [OF Suc.prems(2) lt Suc.prems(3)] obtain flags' where
    f: "sieve_step n flags = Some flags'" "length flags' = L" "sieved (unat n) flags'"
    using Suc.prems(1) by auto
  have un: "unat (n + 1) = Suc (unat n)"
    using le assms(2) by (intro unat_succ) simp
  have j: "j = Suc (L div 2) - unat (n + 1)"
    using Suc.hyps(2) un by simp
  have "\<exists>flags''. sieve_loop (n + 1) flags' = Some flags'' \<and> length flags'' = L \<and>
                   sieved (max (unat (n + 1) - 1) (L div 2)) flags''"
    using f un Suc.prems(2) by (intro Suc.hyps(1) [OF j]) simp_all
  moreover have "sieve_loop n flags = sieve_loop (n + 1) flags'"
    using le f(1) Suc.prems(1) by (subst sieve_loop.simps) (simp add: half_size [OF assms(2)])
  moreover have "max (unat (n + 1) - 1) (L div 2) = max (unat n - 1) (L div 2)"
    using le un by simp
  ultimately show ?case by simp
qed

lemma sieved_init: "sieved 1 (replicate L True)"
  by (simp add: sieved_def survives_def)

lemma survives_half_prime:
  assumes "1 \<le> k" and "k \<le> N"
  shows "survives 2 (Suc N div 2) k = (k = 1 \<or> is_prime k)"
proof
  assume s: "survives 2 (Suc N div 2) k"
  show "k = 1 \<or> is_prime k"
  proof (cases "k = 1")
    case False
    with assms have "1 < k" by simp
    moreover have "\<not> d dvd k" if d: "d \<in> {2..<k}" for d
    proof
      assume "d dvd k"
      then obtain q where q: "k = d * q" by (auto simp: dvd_def)
      with d have "q \<noteq> 0" "q \<noteq> 1" by auto
      then have "2 \<le> q" by simp
      then have "d * 2 \<le> d * q" by (rule mult_le_mono2)
      with q assms(2) have "d * 2 \<le> N" by linarith
      then have "d \<le> Suc N div 2" by arith
      with s d \<open>d dvd k\<close> show False by (auto simp: survives_def)
    qed
    ultimately show ?thesis by (simp add: is_prime_def)
  qed simp
next
  assume "k = 1 \<or> is_prime k"
  then show "survives 2 (Suc N div 2) k"
    by (auto simp: survives_def is_prime_def)
qed

lemma sieve_pass_flags:
  fixes count :: ulong
  assumes "can_hold cap (Suc (unat count))"
  shows "\<exists>flags. sieve_pass cap count = Some flags \<and> length flags = Suc (unat count) \<and>
                  (\<forall>k. 1 \<le> k \<and> k \<le> unat count \<longrightarrow> flags ! k = (k = 1 \<or> is_prime k))"
proof -
  let ?N = "unat count"
  have b: "?N + 1 < 2 ^ 64"
    using can_hold_no_wrap [OF assms] by simp
  have len: "unat (count + 1) = Suc ?N"
    using b by (rule unat_succ)
  have "\<exists>flags. sieve_loop 2 (replicate (Suc ?N) True) = Some flags \<and> length flags = Suc ?N \<and>
                 sieved (max (unat (2 :: ulong) - 1) (Suc ?N div 2)) flags"
  proof (intro sieve_loop_sieved)
    show "sieved (unat (2 :: ulong) - 1) (replicate (Suc ?N) True)"
      using sieved_init [of "Suc ?N"] by simp
  qed (use b in simp_all)
  then obtain flags where f: "sieve_pass cap count = Some flags" "length flags = Suc ?N"
    "sieved (max 1 (Suc ?N div 2)) flags"
    using assms by (auto simp: sieve_pass_def len)
  have "flags ! k = (k = 1 \<or> is_prime k)" if k: "1 \<le> k" "k \<le> ?N" for k
  proof (cases "?N = 1")
    case True
    with k have "k = 1" by simp
    with f True show ?thesis by (simp add: sieved_def survives_def)
  next
    case False
    with k have "max 1 (Suc ?N div 2) = Suc ?N div 2" by simp
    with f k show ?thesis by (simp add: sieved_def survives_half_prime)
  qed
  with f show ?thesis by blast
qed


lemma copy_loop_eq:
  "i \<le> length flags \<Longrightarrow> length l \<le> i \<Longrightarrow> can_hold cap (length flags) \<Longrightarrow>
   copy_loop cap i flags l =
   Some (l @ map of_nat (filter (\<lambda>k. k \<noteq> 0 \<and> flags ! k) [i..<length flags]))"
proof (induction cap i flags l rule: copy_loop.induct)
  case (1 cap i flags l)
  show ?case
  proof (cases "i = length flags")
    case True
    then show ?thesis by (subst copy_loop.simps) simp
  next
    case False
    with "1.prems" have lt: "i < length flags" by simp
    then have up: "[i..<length flags] = i # [Suc i..<length flags]"
      by (simp add: upt_conv_Cons)
    show ?thesis
    proof (cases "i \<noteq> 0 \<and> flags ! i = True")
      case True
      have "can_hold cap (length l + 1)"
        using "1.prems"(2,3) lt by (auto simp: can_hold_def)
      then have p: "push_back cap l (of_nat i) = Some (l @ [of_nat i])"
        by (simp add: push_back_def)
      have "copy_loop cap (i + 1) flags (l @ [of_nat i]) =
            Some ((l @ [of_nat i]) @
              map of_nat (filter (\<lambda>k. k \<noteq> 0 \<and> flags ! k) [i + 1..<length flags]))"
        using "1.prems" lt by (intro "1.IH"(1) [OF False lt True p]) simp_all
      with True lt p show ?thesis
        by (subst copy_loop.simps) (simp add: up)
    next
      case f: False
      have "copy_loop cap (i + 1) flags l =
            Some (l @ map of_nat (filter (\<lambda>k. k \<noteq> 0 \<and> flags ! k) [i + 1..<length flags]))"
        using "1.prems" lt by (intro "1.IH"(2) [OF False lt f]) simp_all
      with f lt show ?thesis
        by (subst copy_loop.simps) (auto simp: up)
    qed
  qed
qed

lemma half_bound:
  fixes count :: ulong
  shows "unat (count div 2) = unat count div 2"
  by (simp add: unat_div)

lemma optimal_case_correct:
  fixes count :: ulong
  assumes "can_hold cap (Suc (unat count))"
  shows "optimal_case cap count = Some (map of_nat (one_and_primes (unat count)))"
proof -
  let ?N = "unat count"
  from sieve_pass_flags [OF assms] obtain flags where
    f: "sieve_pass cap count = Some flags" "length flags = Suc ?N"
    "\<And>k. 1 \<le> k \<and> k \<le> ?N \<Longrightarrow> flags ! k = (k = 1 \<or> is_prime k)"
    by blast
  have r: "can_hold cap (unat (count div 2))"
    using assms by (rule can_hold_mono) (simp add: half_bound)
  have "[0..<Suc ?N] = 0 # [1..<Suc ?N]"
    by (simp add: upt_conv_Cons del: upt_Suc)
  moreover have "filter (\<lambda>k. k \<noteq> 0 \<and> flags ! k) [1..<Suc ?N] = one_and_primes ?N"
    unfolding one_and_primes_def
    by (rule filter_cong [OF refl]) (use f(3) in auto)
  ultimately have "filter (\<lambda>k. k \<noteq> 0 \<and> flags ! k) [0..<length flags] = one_and_primes ?N"
    using f(2) by (simp del: upt_Suc)
  moreover have "can_hold cap (length flags)"
    using assms f(2) by simp
  ultimately show ?thesis
    using f(1) r by (simp add: optimal_case_def copy_loop_eq)
qed


lemma is_prime_iff: "is_prime p = (1 < p \<and> (\<forall>d. d dvd p \<longrightarrow> d = 1 \<or> d = p))"
proof
  assume p: "is_prime p"
  have "d = 1 \<or> d = p" if "d dvd p" for d
  proof -
    from p that have "d \<le> p" "d \<noteq> 0" by (auto simp: is_prime_def dvd_imp_le intro: Nat.gr0I)
    with p that show ?thesis by (cases "d = 1 \<or> d = p") (auto simp: is_prime_def)
  qed
  with p show "1 < p \<and> (\<forall>d. d dvd p \<longrightarrow> d = 1 \<or> d = p)" by (simp add: is_prime_def)
next
  assume "1 < p \<and> (\<forall>d. d dvd p \<longrightarrow> d = 1 \<or> d = p)"
  then show "is_prime p" by (auto simp: is_prime_def)
qed

lemma set_primes_upto: "set (primes_upto N) = {p. is_prime p \<and> p \<le> N}"
  by (auto simp: primes_upto_def is_prime_def)

lemma sorted_primes_upto: "sorted_wrt (<) (primes_upto N)"
  unfolding primes_upto_def by (rule sorted_wrt_filter) (simp del: upt_Suc)

lemma unat_primes_seq: "map unat (primes_seq count) = primes_upto (unat count)"
proof -
  have "unat (of_nat p :: ulong) = p" if "p \<in> set (primes_upto (unat count))" for p
  proof -
    from that have "p \<le> unat count" by (simp add: set_primes_upto)
    also have "unat count < 2 ^ 64" using unsigned_less [of count] by simp
    finally show ?thesis by (rule unat_of_nat_ulong)
  qed
  then show ?thesis by (simp add: primes_seq_def map_idI comp_def)
qed

lemma one_notin_primes_seq: "1 \<notin> set (primes_seq count)"
proof
  assume "1 \<in> set (primes_seq count)"
  then have "unat (1 :: ulong) \<in> unat ` set (primes_seq count)" by (rule imageI)
  then have "unat (1 :: ulong) \<in> set (map unat (primes_seq count))" by (simp only: set_map)
  then show False by (simp add: unat_primes_seq set_primes_upto is_prime_def)
qed

lemma sorted_primes_seq: "sorted_wrt (<) (1 # primes_seq count)"
proof -
  have "sorted_wrt (<) (map unat (1 # primes_seq count))"
    using sorted_primes_upto [of "unat count"]
    by (auto simp: unat_primes_seq set_primes_upto is_prime_def)
  moreover have "(\<lambda>x y :: ulong. unat x < unat y) = (<)"
    by (intro ext) (simp add: word_less_nat_alt)
  ultimately show ?thesis
    by (simp only: sorted_wrt_map)
qed

lemma reserve_refused:
  "\<not> can_hold cap (unat ((18446744073709551615 :: ulong) div 2))"
  by (simp add: can_hold_def max_size_def)

lemma sieve_pass_max: "sieve_pass cap 18446744073709551615 = Some []"
proof -
  have "sieve_loop 2 [] = Some []"
    by (subst sieve_loop.simps) simp
  then show ?thesis by (simp add: sieve_pass_def can_hold_def)
qed

lemma optimal_case_max: "optimal_case cap 18446744073709551615 = None"
  by (simp only: optimal_case_def sieve_pass_max reserve_refused) simp

lemma flags_refused: "sieve_pass cap 18446744073709551614 = None"
  by (simp add: sieve_pass_def can_hold_def max_size_def)

lemma optimal_case_refused: "optimal_case cap 18446744073709551614 = None"
  by (simp add: optimal_case_def flags_refused)

lemma seed_refused:
  "simplest cap 18446744073709551615 = None" "using_remove_if cap 18446744073709551615 = None"
  by (simp_all add: simplest_def using_remove_if_def can_hold_def max_size_def)

lemma sieve_step_length:
  assumes "sieve_step n flags = Some flags'" and "0 < unat n"
  shows "length flags' = length flags"
  using assms
  by (auto simp: sieve_step_def load_def clear_multiples_eq bind_eq_Some_conv split: if_splits)

lemma sieve_loop_steps:
  fixes n :: ulong
  assumes "L < 2 ^ 64" and "length flags = L" and "0 < unat n"
  shows "sieve_loop n flags = sieve_steps [unat n..<Suc (L div 2)] flags"
  using assms(2,3)
proof (induction "Suc (L div 2) - unat n" arbitrary: n flags)
  case 0
  then have "\<not> unat n \<le> L div 2" by simp
  then show ?case
    using "0.prems"(1) by (subst sieve_loop.simps) (simp add: half_size [OF assms(1)])
next
  case (Suc j)
  then have le: "unat n \<le> L div 2" by simp
  have un: "unat (n + 1) = Suc (unat n)"
    using le assms(1) by (intro unat_succ) simp
  have j: "j = Suc (L div 2) - unat (n + 1)"
    using Suc.hyps(2) un by simp
  have up: "[unat n..<Suc (L div 2)] = unat n # [unat (n + 1)..<Suc (L div 2)]"
    using le un by (simp add: upt_conv_Cons del: upt_Suc)
  have unf: "sieve_loop n flags = Option.bind (sieve_step n flags) (sieve_loop (n + 1))"
    using le Suc.prems(1) by (subst sieve_loop.simps) (simp add: half_size [OF assms(1)])
  show ?case
  proof (cases "sieve_step n flags")
    case None
    then show ?thesis by (simp add: unf up del: upt_Suc)
  next
    case (Some flags')
    then have "length flags' = L"
      using sieve_step_length [OF Some Suc.prems(2)] Suc.prems(1) by simp
    then have "sieve_loop (n + 1) flags' = sieve_steps [unat (n + 1)..<Suc (L div 2)] flags'"
      using un by (intro Suc.hyps(1) [OF j]) simp_all
    then show ?thesis using Some by (simp add: unf up del: upt_Suc)
  qed
qed

lemma sieve_pass_steps:
  fixes count :: ulong
  assumes "can_hold cap (Suc (unat count))"
  shows "sieve_pass cap count =
         sieve_steps [2..<Suc (Suc (unat count) div 2)] (replicate (Suc (unat count)) True)"
proof -
  have b: "unat count + 1 < 2 ^ 64"
    using can_hold_no_wrap [OF assms] by simp
  then have "unat (count + 1) = Suc (unat count)"
    by (rule unat_succ)
  then show ?thesis
    using sieve_loop_steps [of "Suc (unat count)" "replicate (Suc (unat count)) True" 2] assms b
    by (simp add: sieve_pass_def)
qed

lemma later_multiple:
  fixes n k :: nat
  assumes "0 < n"
  shows "(n + n \<le> k \<and> n dvd (k - (n + n))) = (\<exists>j\<ge>2. k = j * n)"
proof -
  have "(n < k \<and> n dvd k) = (\<exists>j\<ge>2. k = j * n)"
  proof
    assume a: "n < k \<and> n dvd k"
    then obtain q where q: "k = n * q" by (auto simp: dvd_def)
    with a have "q \<noteq> 0" "q \<noteq> 1" by auto
    then have "2 \<le> q" by simp
    with q show "\<exists>j\<ge>2. k = j * n" by (auto simp: ac_simps)
  next
    assume "\<exists>j\<ge>2. k = j * n"
    then obtain j where j: "2 \<le> j" "k = j * n" by blast
    then have "1 * n < j * n" using assms by (intro mult_less_mono1) simp_all
    with j show "n < k \<and> n dvd k" by simp
  qed
  with multiple_from_double [OF assms] show ?thesis by simp
qed

lemma sieve_step_eq:
  fixes n :: ulong
  assumes "0 < unat n" and "unat n < length flags"
  shows "sieve_step n flags =
         Some (if flags ! unat n
               then map (\<lambda>k. flags ! k \<and> \<not> (\<exists>j\<ge>2. k = j * unat n)) [0..<length flags]
               else flags)"
  using assms
  by (simp add: sieve_step_def load_def clear_multiples_eq strike_from_def later_multiple)

lemma to_milliseconds_nonneg: "0 \<le> d \<Longrightarrow> to_milliseconds d = d div 1000000"
  by (simp add: to_milliseconds_def signed_divide_int_def sgn_if)

subsection \<open>The number of primes up to 50000\<close>

lemma nat_of_num_inc': "nat_of_num (Num.inc c) = Suc (nat_of_num c)"
  by (simp add: nat_of_num_inc)

lemma unary_eq: "unary n = nat_of_num n"
  by (induction n) (simp_all add: Let_def)

lemma tick_eq:
  "tick cs acc hit = (rev (map adv cs) @ acc, hit \<or> (\<exists>x \<in> set cs. snd x = num.One))"
  by (induction cs acc hit rule: tick.induct) auto

lemma adv_fst: "fst (adv x) = fst x"
  by (cases x rule: adv.cases) auto

lemma adv_snd:
  "nat_of_num (snd (adv x)) =
     (if snd x = num.One then nat_of_num (fst x) else nat_of_num (snd x) - 1)"
  by (cases x rule: adv.cases) (auto simp: nat_of_num_BitM)

lemma snd_One: "(c = num.One) = (nat_of_num c = 1)"
proof (cases c)
  case One
  then show ?thesis by simp
next
  case (Bit0 d)
  with nat_of_num_pos [of d] show ?thesis by simp
next
  case (Bit1 d)
  with nat_of_num_pos [of d] show ?thesis by simp
qed

lemma least_prime_factor:
  assumes "1 < n" and "\<not> is_prime n"
  shows "\<exists>p. is_prime p \<and> p dvd n \<and> p * p \<le> n"
proof -
  from assms obtain d where d: "2 \<le> d" "d < n" "d dvd n"
    by (auto simp: is_prime_def)
  define p where "p = (LEAST e. 2 \<le> e \<and> e dvd n)"
  have p: "2 \<le> p \<and> p dvd n"
    unfolding p_def by (rule LeastI [of _ d]) (use d in simp)
  have least: "p \<le> e" if "2 \<le> e" "e dvd n" for e
    unfolding p_def by (rule Least_le) (use that in simp)
  have "p \<le> d" using least d by simp
  with d have "p < n" by simp
  have "\<not> e dvd p" if e: "e \<in> {2..<p}" for e
  proof
    assume "e dvd p"
    with p have "e dvd n" by (auto intro: dvd_trans)
    with e least [of e] show False by simp
  qed
  with p have prime: "is_prime p" by (simp add: is_prime_def)
  from p obtain q where q: "n = p * q" by (auto simp: dvd_def)
  with \<open>p < n\<close> assms(1) have "q \<noteq> 0" "q \<noteq> 1" by auto
  then have "2 \<le> q" by simp
  moreover from q have "q dvd n" by simp
  ultimately have "p \<le> q" using least by simp
  then have "p * p \<le> p * q" by (rule mult_le_mono2)
  with q have "p * p \<le> n" by simp
  with prime p show ?thesis by blast
qed

lemma odd_prime_test:
  assumes "odd m" and "3 \<le> m" and "m < (L + 2) * (L + 2)" and "odd L"
  shows "is_prime m = (\<not> (\<exists>p. is_prime p \<and> odd p \<and> p < m \<and> p \<le> L \<and> p dvd m))"
proof
  assume m: "is_prime m"
  show "\<not> (\<exists>p. is_prime p \<and> odd p \<and> p < m \<and> p \<le> L \<and> p dvd m)"
  proof
    assume "\<exists>p. is_prime p \<and> odd p \<and> p < m \<and> p \<le> L \<and> p dvd m"
    then obtain p where "is_prime p" "p < m" "p dvd m" by blast
    then have "p \<in> {2..<m}" "p dvd m" by (simp_all add: is_prime_def)
    with m show False by (simp add: is_prime_def)
  qed
next
  assume none: "\<not> (\<exists>p. is_prime p \<and> odd p \<and> p < m \<and> p \<le> L \<and> p dvd m)"
  show "is_prime m"
  proof (rule ccontr)
    assume "\<not> is_prime m"
    with assms(2) least_prime_factor [of m] obtain p where
      p: "is_prime p" "p dvd m" "p * p \<le> m" by auto
    from p(2) assms(1) have "odd p" by (auto elim: dvd_trans)
    from p(1) have "2 \<le> p" by (simp add: is_prime_def)
    then have "p * 2 \<le> p * p" by (rule mult_le_mono2)
    from this p(3) have "p * 2 \<le> m" by (rule le_trans)
    with \<open>2 \<le> p\<close> have "p < m" by linarith
    have "p < L + 2"
    proof (rule ccontr)
      assume "\<not> p < L + 2"
      then have "L + 2 \<le> p" by simp
      from mult_le_mono [OF this this] have "(L + 2) * (L + 2) \<le> p * p" .
      with p(3) assms(3) show False by simp
    qed
    moreover have "p \<noteq> L + 1" using \<open>odd p\<close> assms(4) by auto
    ultimately have "p \<le> L" by simp
    with none p \<open>odd p\<close> \<open>p < m\<close> show False by blast
  qed
qed

lemma odd_dvd_double:
  fixes p x :: nat
  assumes "odd p" and "p dvd 2 * x"
  shows "p dvd x"
proof -
  from assms(1) have "coprime p 2" by simp
  from coprime_dvd_mult_right_iff [OF this, of x] assms(2) show ?thesis
    by (simp add: ac_simps)
qed

lemma even_not_prime: "even n \<Longrightarrow> 2 < n \<Longrightarrow> \<not> is_prime n"
  by (auto simp: is_prime_def intro!: bexI [of _ 2])

lemma prime_count_split:
  "a \<le> b \<Longrightarrow> b \<le> c \<Longrightarrow> prime_count a c = prime_count a b + prime_count b c"
proof -
  assume "a \<le> b" "b \<le> c"
  then have "[a..<c] = [a..<b] @ [b..<c]"
    by (metis le_Suc_ex upt_add_eq_append)
  then show ?thesis by (simp add: prime_count_def)
qed

lemma prime_count_odd:
  assumes "odd m" and "3 \<le> m"
  shows "prime_count m (m + 2) = (if is_prime m then 1 else 0)"
proof -
  have "[m..<m + 2] = [m, Suc m]"
    by (simp add: upt_conv_Cons)
  moreover have "\<not> is_prime (Suc m)"
    using assms by (intro even_not_prime) simp_all
  ultimately show ?thesis by (simp add: prime_count_def)
qed

lemma tick_hit:
  assumes "counters_ok m L cs" and "odd m" and "3 \<le> m" and "m < (L + 2) * (L + 2)"
    and "odd L"
  shows "snd (tick cs [] False) = (\<not> is_prime m)"
proof -
  let ?P = "{p. is_prime p \<and> odd p \<and> p < m \<and> p \<le> L}"
  from assms(1) have img: "(\<lambda>x. nat_of_num (fst x)) ` set cs = ?P"
    and each: "\<And>x. x \<in> set cs \<Longrightarrow> odd (nat_of_num (fst x)) \<and>
                 nat_of_num (snd x) \<le> nat_of_num (fst x) \<and>
                 nat_of_num (fst x) dvd m + 2 * (nat_of_num (snd x) - 1)"
    by (simp_all add: counters_ok_def)
  have "(\<exists>x \<in> set cs. snd x = num.One) = (\<exists>p \<in> ?P. p dvd m)"
  proof
    assume "\<exists>x \<in> set cs. snd x = num.One"
    then obtain x where x: "x \<in> set cs" "snd x = num.One" by blast
    with each [of x] have "nat_of_num (fst x) dvd m" by simp
    moreover from x(1) img have "nat_of_num (fst x) \<in> ?P" by blast
    ultimately show "\<exists>p \<in> ?P. p dvd m" by blast
  next
    assume "\<exists>p \<in> ?P. p dvd m"
    then obtain p where p: "p \<in> ?P" "p dvd m" by blast
    with img have "p \<in> (\<lambda>x. nat_of_num (fst x)) ` set cs" by simp
    then obtain x where x: "x \<in> set cs" "p = nat_of_num (fst x)" by (rule imageE)
    let ?c = "nat_of_num (snd x)"
    from each [OF x(1)] x(2) have o: "odd p" "?c \<le> p" "p dvd m + 2 * (?c - 1)" by simp_all
    from o(3) p(2) have "p dvd 2 * (?c - 1)" by (simp add: dvd_add_right_iff)
    with o(1) have "p dvd ?c - 1" by (rule odd_dvd_double)
    moreover have "0 < ?c" by (rule nat_of_num_pos)
    with o(2) have "?c - 1 < p" by simp
    ultimately have "?c - 1 = 0" by (meson dvd_imp_le not_less not_gr_zero)
    with \<open>0 < ?c\<close> have "snd x = num.One" by (simp add: snd_One)
    with x(1) show "\<exists>x \<in> set cs. snd x = num.One" by blast
  qed
  also have "\<dots> = (\<not> is_prime m)"
    using odd_prime_test [OF assms(2,3,4,5)] by blast
  finally show ?thesis by (simp add: tick_eq)
qed

lemma tick_ok:
  assumes "counters_ok m L cs"
  shows "(\<forall>x \<in> set (fst (tick cs [] False)). odd (nat_of_num (fst x)) \<and>
            nat_of_num (snd x) \<le> nat_of_num (fst x) \<and>
            nat_of_num (fst x) dvd (m + 2) + 2 * (nat_of_num (snd x) - 1)) \<and>
         (\<lambda>x. nat_of_num (fst x)) ` set (fst (tick cs [] False)) =
           {p. is_prime p \<and> odd p \<and> p < m \<and> p \<le> L}"
proof -
  from assms have img: "(\<lambda>x. nat_of_num (fst x)) ` set cs =
      {p. is_prime p \<and> odd p \<and> p < m \<and> p \<le> L}"
    and each: "\<And>x. x \<in> set cs \<Longrightarrow> odd (nat_of_num (fst x)) \<and>
                 nat_of_num (snd x) \<le> nat_of_num (fst x) \<and>
                 nat_of_num (fst x) dvd m + 2 * (nat_of_num (snd x) - 1)"
    by (simp_all add: counters_ok_def)
  have st: "set (fst (tick cs [] False)) = adv ` set cs"
    by (simp add: tick_eq)
  have "odd (nat_of_num (fst (adv x))) \<and>
        nat_of_num (snd (adv x)) \<le> nat_of_num (fst (adv x)) \<and>
        nat_of_num (fst (adv x)) dvd (m + 2) + 2 * (nat_of_num (snd (adv x)) - 1)"
    if x: "x \<in> set cs" for x
  proof (cases "snd x = num.One")
    case True
    with each [OF x] have "nat_of_num (fst x) dvd m" by simp
    then have "nat_of_num (fst x) dvd m + 2 * nat_of_num (fst x)" by simp
    moreover have "m + 2 + 2 * (nat_of_num (fst x) - 1) = m + 2 * nat_of_num (fst x)"
      using nat_of_num_pos [of "fst x"] by simp
    ultimately have "nat_of_num (fst x) dvd m + 2 + 2 * (nat_of_num (fst x) - 1)"
      by (simp only:)
    then show ?thesis
      using each [OF x] True by (simp add: adv_fst adv_snd)
  next
    case False
    then have "1 < nat_of_num (snd x)"
      using nat_of_num_pos [of "snd x"] by (simp add: snd_One)
    then have "m + 2 + 2 * (nat_of_num (snd x) - 1 - 1) = m + 2 * (nat_of_num (snd x) - 1)"
      by simp
    with each [OF x] have "nat_of_num (fst x) dvd m + 2 + 2 * (nat_of_num (snd x) - 1 - 1)"
      by (simp only:)
    moreover from each [OF x] have "nat_of_num (snd x) \<le> nat_of_num (fst x)" by blast
    then have "nat_of_num (snd x) - 1 \<le> nat_of_num (fst x)" by linarith
    ultimately show ?thesis
      using each [OF x] False by (simp add: adv_fst adv_snd)
  qed
  moreover have "(\<lambda>x. nat_of_num (fst x)) ` adv ` set cs = (\<lambda>x. nat_of_num (fst x)) ` set cs"
    by (simp add: image_image adv_fst)
  ultimately show ?thesis
    using img by (simp add: st)
qed

lemma prime_set_step:
  assumes "odd m"
  shows "{p. is_prime p \<and> odd p \<and> p < m + 2 \<and> p \<le> L} =
         (if is_prime m \<and> m \<le> L then insert m {p. is_prime p \<and> odd p \<and> p < m \<and> p \<le> L}
          else {p. is_prime p \<and> odd p \<and> p < m \<and> p \<le> L})"
proof -
  have "(odd p \<and> p < m + 2) = (odd p \<and> (p < m \<or> p = m))" for p
  proof -
    have "(p < m + 2) = (p < m \<or> p = m \<or> p = Suc m)" by arith
    moreover have "even (Suc m)" using assms by simp
    ultimately show ?thesis by blast
  qed
  then have "(is_prime p \<and> odd p \<and> p < m + 2 \<and> p \<le> L) =
             (is_prime p \<and> odd p \<and> (p < m \<or> p = m) \<and> p \<le> L)" for p
    by blast
  then have "{p. is_prime p \<and> odd p \<and> p < m + 2 \<and> p \<le> L} =
             {p. is_prime p \<and> odd p \<and> (p < m \<or> p = m) \<and> p \<le> L}"
    by (simp only:)
  also have "\<dots> = (if is_prime m \<and> m \<le> L
          then insert m {p. is_prime p \<and> odd p \<and> p < m \<and> p \<le> L}
          else {p. is_prime p \<and> odd p \<and> p < m \<and> p \<le> L})"
  proof (cases "is_prime m \<and> m \<le> L")
    case True
    with assms have "{p. is_prime p \<and> odd p \<and> (p < m \<or> p = m) \<and> p \<le> L} =
          insert m {p. is_prime p \<and> odd p \<and> p < m \<and> p \<le> L}"
      by blast
    with True show ?thesis by (simp only: if_True simp_thms)
  next
    case False
    then have "{p. is_prime p \<and> odd p \<and> (p < m \<or> p = m) \<and> p \<le> L} =
          {p. is_prime p \<and> odd p \<and> p < m \<and> p \<le> L}"
      by blast
    with False show ?thesis by (simp only: if_False simp_thms)
  qed
  finally show ?thesis .
qed

lemma next_counters_ok:
  assumes ok: "counters_ok m L cs" and m: "odd m" "3 \<le> m" and h: "nat_of_num (num.Bit1 h) = m"
  shows "counters_ok (m + 2) L
           (if is_prime m \<and> m \<le> L then (num.Bit1 h, num.Bit1 h) # fst (tick cs [] False)
            else fst (tick cs [] False))"
proof -
  let ?cs = "fst (tick cs [] False)"
  let ?ok = "\<lambda>x. odd (nat_of_num (fst x)) \<and> nat_of_num (snd x) \<le> nat_of_num (fst x) \<and>
            nat_of_num (fst x) dvd (m + 2) + 2 * (nat_of_num (snd x) - 1)"
  from tick_ok [OF ok] have each: "\<forall>x \<in> set ?cs. ?ok x"
    and img: "(\<lambda>x. nat_of_num (fst x)) ` set ?cs = {p. is_prime p \<and> odd p \<and> p < m \<and> p \<le> L}"
    by blast+
  show ?thesis
  proof (cases "is_prime m \<and> m \<le> L")
    case True
    have "m + 2 + 2 * (m - 1) = 3 * m" using m(2) by simp
    moreover have "m dvd 3 * m" by simp
    ultimately have "m dvd m + 2 + 2 * (m - 1)" by (simp only:)
    with m(1) have "?ok (num.Bit1 h, num.Bit1 h)"
      by (simp only: fst_conv snd_conv h) simp
    with each have "\<forall>x \<in> set ((num.Bit1 h, num.Bit1 h) # ?cs). ?ok x"
      by (simp only: set_simps ball_simps) simp
    moreover have "(\<lambda>x. nat_of_num (fst x)) ` set ((num.Bit1 h, num.Bit1 h) # ?cs) =
          {p. is_prime p \<and> odd p \<and> p < m + 2 \<and> p \<le> L}"
      using True by (simp only: set_simps image_insert img fst_conv h prime_set_step [OF m(1)] if_True simp_thms)
    ultimately show ?thesis
      using True by (simp only: counters_ok_def if_True simp_thms)
  next
    case False
    have "(\<lambda>x. nat_of_num (fst x)) ` set ?cs =
          {p. is_prime p \<and> odd p \<and> p < m + 2 \<and> p \<le> L}"
      using False by (simp only: img prime_set_step [OF m(1)] if_False simp_thms)
    with each show ?thesis
      using False by (simp only: counters_ok_def if_False simp_thms)
  qed
qed

lemma run_counts:
  assumes L: "odd L"
  shows "odd m \<Longrightarrow> 3 \<le> m \<Longrightarrow> m + 2 * nat_of_num k - 2 < (L + 2) * (L + 2) \<Longrightarrow>
         r = (L + 2 - m) div 2 \<Longrightarrow> (0 < r \<longrightarrow> nat_of_num (num.Bit1 h) = m) \<Longrightarrow>
         counters_ok m L cs \<Longrightarrow>
         nat_of_num (run k r h cs acc) = nat_of_num acc + prime_count m (m + 2 * nat_of_num k)"
proof (induction "nat_of_num k" arbitrary: k m r h cs acc rule: less_induct)
  case less
  note m = less.prems(1,2) and ok = less.prems(6)
  have kpos: "0 < nat_of_num k" by (rule nat_of_num_pos)
  with less.prems(3) have small: "m < (L + 2) * (L + 2)" by simp
  have rpos: "(0 < r) = (m \<le> L)"
  proof -
    from m(1) obtain a where a: "m = 2 * a + 1" by (rule oddE)
    from L obtain b where b: "L = 2 * b + 1" by (rule oddE)
    show ?thesis unfolding less.prems(4) a b by arith
  qed
  obtain cs' hit where t: "tick cs [] False = (cs', hit)" by (cases "tick cs [] False")
  have hit: "hit = (\<not> is_prime m)"
    using tick_hit [OF ok m small L] t by simp
  define cs'' where "cs'' = (if is_prime m \<and> m \<le> L then (num.Bit1 h, num.Bit1 h) # cs' else cs')"
  define acc' where "acc' = (if is_prime m then Num.inc acc else acc)"
  define h' where "h' = (if 0 < r then Num.inc h else h)"
  have unf: "run k r h cs acc = more k (r - 1) h' cs'' acc'"
    by (cases r; cases hit)
      (use hit rpos in \<open>auto simp: run.simps fin.simps t cs''_def acc'_def h'_def\<close>)
  have ok': "counters_ok (m + 2) L cs''"
  proof (cases "m \<le> L")
    case True
    with rpos less.prems(5) have "nat_of_num (num.Bit1 h) = m" by simp
    moreover have "cs'' = (if is_prime m \<and> m \<le> L
        then (num.Bit1 h, num.Bit1 h) # fst (tick cs [] False) else fst (tick cs [] False))"
      by (simp add: cs''_def t)
    ultimately show ?thesis using next_counters_ok [OF ok m] by (simp only:)
  next
    case False
    have "{p. is_prime p \<and> odd p \<and> p < m + 2 \<and> p \<le> L} =
          {p. is_prime p \<and> odd p \<and> p < m \<and> p \<le> L}"
      using False by auto
    with tick_ok [OF ok] False show ?thesis
      by (simp add: counters_ok_def cs''_def t)
  qed
  have r': "r - 1 = (L + 2 - (m + 2)) div 2"
    using less.prems(4) by simp
  have h': "0 < r - 1 \<longrightarrow> nat_of_num (num.Bit1 h') = m + 2"
    using less.prems(5) by (auto simp: h'_def nat_of_num_inc)
  have acc': "nat_of_num acc' = nat_of_num acc + prime_count m (m + 2)"
    using prime_count_odd [OF m] by (simp add: acc'_def nat_of_num_inc)
  have rec: "nat_of_num (run j (r - 1) h' cs'' acc') =
             nat_of_num acc + prime_count m (m + 2 * nat_of_num k)"
    if j: "Suc (nat_of_num j) = nat_of_num k" for j
  proof -
    have "nat_of_num (run j (r - 1) h' cs'' acc') =
          nat_of_num acc' + prime_count (m + 2) (m + 2 + 2 * nat_of_num j)"
      using j m less.prems(3) r' h' ok'
      by (intro less.hyps) simp_all
    also have "m + 2 + 2 * nat_of_num j = m + 2 * nat_of_num k"
      using j by simp
    finally show ?thesis
      using prime_count_split [of m "m + 2" "m + 2 * nat_of_num k"] kpos
      by (simp add: acc')
  qed
  show ?case
  proof (cases k)
    case One
    have "run k r h cs acc = acc'"
      unfolding unf by (simp only: One more.simps)
    moreover have "m + 2 * nat_of_num k = m + 2"
      by (simp add: One)
    ultimately show ?thesis by (simp only: acc')
  next
    case (Bit0 n)
    have j: "Suc (nat_of_num (Num.BitM n)) = nat_of_num k"
      using nat_of_num_pos [of n] by (simp add: Bit0 nat_of_num_BitM)
    have "run k r h cs acc = run (Num.BitM n) (r - 1) h' cs'' acc'"
      unfolding unf by (simp only: Bit0 more.simps)
    then show ?thesis by (simp only: rec [OF j])
  next
    case (Bit1 n)
    have j: "Suc (nat_of_num (num.Bit0 n)) = nat_of_num k"
      by (simp add: Bit1)
    have "run k r h cs acc = run (num.Bit0 n) (r - 1) h' cs'' acc'"
      unfolding unf by (simp only: Bit1 more.simps)
    then show ?thesis by (simp only: rec [OF j])
  qed
qed

lemma counters_ok_start: "counters_ok 3 L []"
proof -
  have "\<not> (is_prime p \<and> odd p \<and> p < 3 \<and> p \<le> L)" for p
  proof
    assume a: "is_prime p \<and> odd p \<and> p < 3 \<and> p \<le> L"
    then have "1 < p" "p < 3" by (simp_all add: is_prime_def)
    then have "p = 2" by linarith
    with a show False by simp
  qed
  then show ?thesis by (simp add: counters_ok_def)
qed

lemma length_primes_upto_run:
  assumes "odd L" and "2 * nat_of_num k + 1 < (L + 2) * (L + 2)" and "r = (L - 1) div 2"
  shows "length (primes_upto (2 * nat_of_num k + 2)) = nat_of_num (run k r num.One [] num.One)"
proof -
  have run: "nat_of_num (run k r num.One [] num.One) =
        nat_of_num num.One + prime_count 3 (3 + 2 * nat_of_num k)"
    using assms by (intro run_counts counters_ok_start) simp_all
  have "[2..<3] = [2 :: nat]"
    by (simp add: upt_conv_Cons)
  then have two: "prime_count 2 3 = 1"
    by (simp add: prime_count_def is_prime_def)
  have split: "prime_count 2 (3 + 2 * nat_of_num k) =
                 prime_count 2 3 + prime_count 3 (3 + 2 * nat_of_num k)"
    by (rule prime_count_split) simp_all
  have "Suc (2 * nat_of_num k + 2) = 3 + 2 * nat_of_num k" by simp
  then have "length (primes_upto (2 * nat_of_num k + 2)) = prime_count 2 (3 + 2 * nat_of_num k)"
    by (simp only: primes_upto_def prime_count_def)
  also have "\<dots> = nat_of_num (run k r num.One [] num.One)"
    by (simp only: run split two nat_of_num.simps)
  finally show ?thesis .
qed

lemma count_50000:
  "run (num.Bit1 (num.Bit1 (num.Bit1 (num.Bit0 (num.Bit0 (num.Bit1 (num.Bit0 (num.Bit1 (num.Bit1 (num.Bit0 (num.Bit0 (num.Bit0 (num.Bit0 (num.Bit1 (num.One)))))))))))))))
     (unary (num.Bit1 (num.Bit1 (num.Bit1 (num.Bit1 (num.Bit0 (num.Bit1 (num.One)))))))) num.One [] num.One =
   num.Bit1 (num.Bit0 (num.Bit1 (num.Bit1 (num.Bit0 (num.Bit0 (num.Bit0 (num.Bit0 (num.Bit0 (num.Bit0 (num.Bit1 (num.Bit0 (num.One))))))))))))"
  by (simp only: tick.simps run.simps fin.simps more.simps unary.simps Num.BitM.simps
      Num.inc.simps Let_def add_Suc add_0 add_Suc_right add_0_right)

lemma length_primes_upto_50000: "length (primes_upto 50000) = 5133"
proof -
  let ?k = "num.Bit1 (num.Bit1 (num.Bit1 (num.Bit0 (num.Bit0 (num.Bit1 (num.Bit0 (num.Bit1 (num.Bit1 (num.Bit0 (num.Bit0 (num.Bit0 (num.Bit0 (num.Bit1 (num.One))))))))))))))"
  let ?r = "num.Bit1 (num.Bit1 (num.Bit1 (num.Bit1 (num.Bit0 (num.Bit1 (num.One))))))"
  have k: "nat_of_num ?k = 24999" and r: "nat_of_num ?r = 111"
    by (simp_all only: nat_of_num_numeral)
  have "length (primes_upto (2 * nat_of_num ?k + 2)) =
        nat_of_num (run ?k (unary ?r) num.One [] num.One)"
  proof (rule length_primes_upto_run [where L = 223])
    show "odd (223 :: nat)" by simp
    show "2 * nat_of_num ?k + 1 < (223 + 2) * (223 + 2)" by (simp add: k del: nat_of_num.simps)
    show "unary ?r = (223 - 1) div 2" by (simp add: unary_eq r del: nat_of_num.simps)
  qed
  also have "2 * nat_of_num ?k + 2 = 50000"
    by (simp add: k del: nat_of_num.simps)
  finally have "length (primes_upto 50000) = nat_of_num (run ?k (unary ?r) num.One [] num.One)" .
  then show ?thesis
    by (simp only: count_50000 nat_of_num_numeral)
qed

section \<open>The claims\<close>

lemma primes_seq_30: "primes_seq 30 = [2, 3, 5, 7, 11, 13, 17, 19, 23, 29]"
  by code_simp

lemma one_then_primes:
  fixes count :: ulong
  shows "map of_nat (one_and_primes (unat count)) =
         (if count = 0 then [] else 1 # primes_seq count)"
proof (cases "count = 0")
  case True
  then show ?thesis by (simp add: one_and_primes_0)
next
  case False
  then have "1 \<le> unat count" by (simp add: unat_gt_0 Suc_le_eq)
  with False show ?thesis by (simp add: one_and_primes_Cons primes_seq_def)
qed

lemma results_with_storage:
  fixes count :: ulong
  assumes "can_hold cap (Suc (unat count))"
  shows "optimal_case cap count = Some (if count = 0 then [] else 1 # primes_seq count)"
    and "count < 2147483647 \<Longrightarrow>
         simplest cap count = Some (if count = 0 then [] else 1 # primes_seq count)"
    and "count < 2147483647 \<Longrightarrow>
         using_remove_if cap count = Some (if count = 0 then [] else 1 # primes_seq count)"
proof -
  show "optimal_case cap count = Some (if count = 0 then [] else 1 # primes_seq count)"
    using optimal_case_correct [OF assms] by (simp only: one_then_primes)
  have s: "can_hold cap (unat count)"
    using assms by (rule can_hold_mono) simp
  show "simplest cap count = Some (if count = 0 then [] else 1 # primes_seq count)"
    if "count < 2147483647"
    using simplest_correct [OF s that] by (simp only: one_then_primes)
  then show "using_remove_if cap count = Some (if count = 0 then [] else 1 # primes_seq count)"
    if "count < 2147483647"
    using that by (simp only: using_remove_if_simplest)
qed

lemma distinct_primes_seq: "distinct (primes_seq count)"
  using sorted_primes_seq [of count] by (simp add: strict_sorted_iff)

lemma storage_30: "can_hold 31 (Suc (unat (30 :: ulong)))"
  by (simp add: can_hold_def max_size_def)

lemma results_30:
  "optimal_case 31 30 = Some [1, 2, 3, 5, 7, 11, 13, 17, 19, 23, 29]"
  "simplest 31 30 = Some [1, 2, 3, 5, 7, 11, 13, 17, 19, 23, 29]"
  "using_remove_if 31 30 = Some [1, 2, 3, 5, 7, 11, 13, 17, 19, 23, 29]"
  using results_with_storage [OF storage_30] by (simp_all add: primes_seq_30)

lemma overflow_at_2147483648:
  "simplest cap 2147483648 = None" "using_remove_if cap 2147483648 = None"
proof -
  have "(2147483647 :: ulong) \<le> 2147483648" by simp
  then show "simplest cap 2147483648 = None"
    by (rule simplest_overflow)
  then show "using_remove_if cap 2147483648 = None"
    by (simp only: using_remove_if_simplest)
qed

text \<open>
  C1, as amended: for every bound \<open>N \<ge> 2\<close> on a platform that can hold \<open>N + 1\<close>
  elements, \<^verbatim>\<open>optimal_case\<close> returns the value 1 followed by the primes in \<open>[2, N]\<close>, and so
  do \<^verbatim>\<open>simplest\<close> and \<^verbatim>\<open>using_remove_if\<close> when \<open>N \<le> 2\<^sup>3\<^sup>1 - 2\<close> (the seed is counted in an
  \<^verbatim>\<open>int\<close>); with the 1 removed, the sequence is the ascending list of those primes, each
  exactly once.
\<close>

theorem primes_after_removing_one:
  fixes count :: ulong
  assumes "2 \<le> count" and "can_hold cap (Suc (unat count))"
  shows "optimal_case cap count = Some (1 # primes_seq count) \<and>
         (count < 2147483647 \<longrightarrow>
            simplest cap count = Some (1 # primes_seq count) \<and>
            using_remove_if cap count = Some (1 # primes_seq count)) \<and>
         removeAll 1 (1 # primes_seq count) = primes_seq count \<and>
         map unat (primes_seq count) = primes_upto (unat count) \<and>
         distinct (primes_seq count) \<and>
         set (primes_upto (unat count)) = {p. is_prime p \<and> p \<le> unat count}"
proof -
  from assms(1) have "count \<noteq> 0" by auto
  then show ?thesis
    using results_with_storage [OF assms(2)] one_notin_primes_seq [of count]
    by (simp add: unat_primes_seq distinct_primes_seq set_primes_upto)
qed

theorem primes_after_removing_one_witness:
  "(2 :: ulong) \<le> 30 \<and> can_hold 31 (Suc (unat (30 :: ulong))) \<and> (30 :: ulong) < 2147483647 \<and>
   optimal_case 31 30 = Some [1, 2, 3, 5, 7, 11, 13, 17, 19, 23, 29] \<and>
   simplest 31 30 = Some [1, 2, 3, 5, 7, 11, 13, 17, 19, 23, 29] \<and>
   using_remove_if 31 30 = Some [1, 2, 3, 5, 7, 11, 13, 17, 19, 23, 29] \<and>
   removeAll 1 [1, 2, 3, 5, 7, 11, 13, 17, 19, 23, 29 :: ulong] =
     [2, 3, 5, 7, 11, 13, 17, 19, 23, 29]"
proof -
  have a: "(2 :: ulong) \<le> 30" and b: "(30 :: ulong) < 2147483647"
    by simp_all
  note t = primes_after_removing_one [OF a storage_30]
  from t have "optimal_case 31 30 = Some (1 # primes_seq 30)"
    and "simplest 31 30 = Some (1 # primes_seq 30)"
    and "using_remove_if 31 30 = Some (1 # primes_seq 30)"
    and "removeAll 1 (1 # primes_seq 30) = primes_seq 30"
    using b by blast+
  then show ?thesis
    using a b storage_30 by (simp only: primes_seq_30 simp_thms)
qed

theorem primes_after_removing_one_counterexample:
  "(2 :: ulong) \<le> 2147483648 \<and> can_hold 4294967296 (Suc (unat (2147483648 :: ulong))) \<and>
   simplest 4294967296 2147483648 = None \<and>
   using_remove_if 4294967296 2147483648 = None \<and>
   (2 :: ulong) \<le> 18446744073709551615 \<and>
   simplest 1152921504606846975 18446744073709551615 = None \<and>
   using_remove_if 1152921504606846975 18446744073709551615 = None \<and>
   optimal_case 1152921504606846975 18446744073709551615 = None"
proof -
  have "(2 :: ulong) \<le> 2147483648" and "(2 :: ulong) \<le> 18446744073709551615"
    by simp_all
  moreover have "can_hold 4294967296 (Suc (unat (2147483648 :: ulong)))"
    by (simp add: can_hold_def max_size_def)
  ultimately show ?thesis
    by (simp only: overflow_at_2147483648 seed_refused optimal_case_max simp_thms)
qed

text \<open>
  C2: for every bound, \<^verbatim>\<open>using_remove_if\<close> has the outcome of \<^verbatim>\<open>simplest\<close>, the same
  elements in the same order.  Both run the same outer loop, and in each round \<open>n\<close> the
  iterator-erase loop and the predicate removal agree: for \<open>n \<noteq> 0\<close> both drop exactly
  the elements \<open>v\<close> with \<open>v > n\<close> and \<open>v mod n = 0\<close>, keeping the order of the others.
\<close>

theorem using_remove_if_refines_simplest:
  "using_remove_if cap count = simplest cap count \<and>
   (\<forall>n l. erase_loop n 0 l = remove_if (is_multiple n) l) \<and>
   (\<forall>n l. n \<noteq> 0 \<longrightarrow>
      remove_if (is_multiple n) l = Some (filter (\<lambda>v. \<not> (v > n \<and> v mod n = 0)) l))"
proof (intro conjI allI impI)
  show "using_remove_if cap count = simplest cap count"
    by (rule using_remove_if_simplest)
next
  fix n :: ulong and l
  show "erase_loop n 0 l = remove_if (is_multiple n) l"
    by (rule erase_loop_0)
next
  fix n :: ulong and l
  assume "n \<noteq> 0"
  then show "remove_if (is_multiple n) l = Some (filter (\<lambda>v. \<not> (v > n \<and> v mod n = 0)) l)"
    by (rule remove_if_filter)
qed

theorem using_remove_if_refines_simplest_witness:
  "using_remove_if 31 30 = simplest 31 30 \<and>
   simplest 31 30 = Some [1, 2, 3, 5, 7, 11, 13, 17, 19, 23, 29] \<and>
   (3 :: ulong) \<noteq> 0 \<and>
   erase_loop 3 0 [1, 2, 3, 5, 6, 7, 9] = Some [1, 2, 3, 5, 7] \<and>
   remove_if (is_multiple 3) [1, 2, 3, 5, 6, 7, 9] = Some [1, 2, 3, 5, 7]"
proof -
  have nz: "(3 :: ulong) \<noteq> 0" by simp
  from using_remove_if_refines_simplest [of 31 30]
  have "using_remove_if 31 30 = simplest 31 30"
    and "erase_loop 3 0 [1, 2, 3, 5, 6, 7, 9] = remove_if (is_multiple 3) [1, 2, 3, 5, 6, 7, 9]"
    and "remove_if (is_multiple 3) [1, 2, 3, 5, 6, 7, 9] =
         Some (filter (\<lambda>v. \<not> (v > 3 \<and> v mod 3 = 0)) [1, 2, 3, 5, 6, 7, 9 :: ulong])"
    using nz by blast+
  then show ?thesis by (simp add: results_30)
qed

lemma sieve_step_keeps:
  fixes n :: ulong
  assumes "0 < unat n" and "unat n < length flags"
  shows "\<exists>flags'. sieve_step n flags = Some flags' \<and> length flags' = length flags \<and>
           flags' ! unat n = flags ! unat n \<and>
           (flags ! unat n \<longrightarrow>
              (\<forall>k < length flags. flags' ! k = (flags ! k \<and> \<not> (\<exists>j\<ge>2. k = j * unat n)))) \<and>
           (\<not> flags ! unat n \<longrightarrow> flags' = flags)"
proof -
  have "\<not> (\<exists>j\<ge>2. unat n = j * unat n)"
    using assms(1) by auto
  then show ?thesis
    using assms by (simp add: sieve_step_eq)
qed

text \<open>
  C3, as amended: in \<^verbatim>\<open>optimal_case\<close> with a bound \<open>N\<close>, on a platform that can hold
  \<open>N + 1\<close> elements, the sieve pass runs the loop body for \<open>n = 2, \<dots>, \<lfloor>(N + 1) / 2\<rfloor>\<close> in
  turn.  On flags of length \<open>N + 1\<close> the body for such an \<open>n\<close> changes nothing when
  \<open>flag[n]\<close> is false; otherwise it clears exactly the flags at \<open>k = 2n, 3n, 4n, \<dots>\<close> with
  \<open>k \<le> N\<close>; in both cases \<open>flag[n]\<close> keeps its value.  After the pass, for
  \<open>1 \<le> k \<le> N\<close>, \<open>flag[k]\<close> is true exactly when \<open>k = 1\<close> or \<open>k\<close> is prime.
\<close>

theorem sieve_pass_marks_primes:
  fixes count :: ulong
  assumes "can_hold cap (Suc (unat count))"
  shows "sieve_pass cap count =
           sieve_steps [2..<Suc (Suc (unat count) div 2)] (replicate (Suc (unat count)) True) \<and>
         (\<forall>n flags. 2 \<le> n \<and> n \<le> Suc (unat count) div 2 \<and> length flags = Suc (unat count) \<longrightarrow>
            (\<exists>flags'. sieve_step (of_nat n) flags = Some flags' \<and>
               length flags' = length flags \<and> flags' ! n = flags ! n \<and>
               (flags ! n \<longrightarrow>
                  (\<forall>k \<le> unat count. flags' ! k = (flags ! k \<and> \<not> (\<exists>j\<ge>2. k = j * n)))) \<and>
               (\<not> flags ! n \<longrightarrow> flags' = flags))) \<and>
         (\<exists>flags. sieve_pass cap count = Some flags \<and> length flags = Suc (unat count) \<and>
            (\<forall>k. 1 \<le> k \<and> k \<le> unat count \<longrightarrow> flags ! k = (k = 1 \<or> is_prime k)))"
proof -
  have b: "unat count + 1 < 2 ^ 64"
    using can_hold_no_wrap [OF assms] by simp
  have step: "\<exists>flags'. sieve_step (of_nat n) flags = Some flags' \<and>
               length flags' = length flags \<and> flags' ! n = flags ! n \<and>
               (flags ! n \<longrightarrow>
                  (\<forall>k \<le> unat count. flags' ! k = (flags ! k \<and> \<not> (\<exists>j\<ge>2. k = j * n)))) \<and>
               (\<not> flags ! n \<longrightarrow> flags' = flags)"
    if n: "2 \<le> n \<and> n \<le> Suc (unat count) div 2 \<and> length flags = Suc (unat count)"
    for n flags
  proof -
    have "Suc (unat count) div 2 \<le> Suc (unat count)" by simp
    with n b have "n < 2 ^ 64" by linarith
    then have un: "unat (of_nat n :: ulong) = n" by (rule unat_of_nat_ulong)
    from n have "n < Suc (unat count)" by arith
    with n have "n < length flags" by simp
    with n sieve_step_keeps [of "of_nat n" flags] show ?thesis
      by (simp add: un less_Suc_eq_le)
  qed
  show ?thesis
    using sieve_pass_steps [OF assms] sieve_pass_flags [OF assms] step by blast
qed

theorem sieve_pass_marks_primes_witness:
  "can_hold 31 (Suc (unat (30 :: ulong))) \<and>
   sieve_pass 31 30 = sieve_steps [2..<16] (replicate 31 True) \<and>
   (\<exists>flags. sieve_pass 31 30 = Some flags \<and> length flags = 31 \<and> flags ! 1 \<and> flags ! 29 \<and>
      \<not> flags ! 27) \<and>
   (\<exists>flags'. sieve_step 3 (replicate 31 True) = Some flags' \<and> flags' ! 3 \<and> \<not> flags' ! 6 \<and>
      flags' ! 7)"
proof -
  have p: "is_prime 29" "\<not> is_prime 27" by code_simp+
  have u: "unat (30 :: ulong) = 30" "Suc (Suc 30 div 2) = 16" "Suc (31 div 2) = 16"
    "Suc 30 = 31" by simp_all
  note t = sieve_pass_marks_primes [OF storage_30]
  from t [THEN conjunct1]
  have 1: "sieve_pass 31 30 = sieve_steps [2..<16] (replicate 31 True)"
    by (simp only: u)
  from t [THEN conjunct2, THEN conjunct2] obtain flags where
    f: "sieve_pass 31 30 = Some flags" "length flags = 31"
    "\<And>k. 1 \<le> k \<and> k \<le> 30 \<Longrightarrow> flags ! k = (k = 1 \<or> is_prime k)"
    unfolding u by blast
  from f(3) [of 1] f(3) [of 29] f(3) [of 27] p
  have 2: "flags ! 1 \<and> flags ! 29 \<and> \<not> flags ! 27" by simp
  from t [THEN conjunct2, THEN conjunct1, rule_format, of 3 "replicate 31 True"] obtain flags'
    where g: "sieve_step 3 (replicate 31 True) = Some flags'" "flags' ! 3"
      "\<And>k. k \<le> 30 \<Longrightarrow> flags' ! k = (replicate 31 True ! k \<and> \<not> (\<exists>j\<ge>2. k = j * 3))"
    unfolding u by auto
  have "\<exists>j\<ge>2. (6 :: nat) = j * 3" by (rule exI [of _ 2]) simp
  moreover have "\<not> (\<exists>j\<ge>2. (7 :: nat) = j * 3)" by presburger
  ultimately have "flags' ! 3 \<and> \<not> flags' ! 6 \<and> flags' ! 7"
    using g(2) g(3) [of 6] g(3) [of 7] by simp
  then show ?thesis using storage_30 1 2 f(1,2) g(1) by blast
qed

theorem sieve_pass_marks_primes_counterexample:
  "sieve_pass 1152921504606846975 18446744073709551615 = Some [] \<and>
   (1 :: nat) \<le> unat (18446744073709551615 :: ulong) \<and> load [] 1 = None \<and>
   sieve_pass 1152921504606846975 18446744073709551614 = None"
  by (simp add: sieve_pass_max flags_refused load_def)

text \<open>
  C4, as amended: for every bound \<open>N\<close> on a platform that can hold \<open>N + 1\<close> elements, the
  result of \<^verbatim>\<open>optimal_case\<close> is strictly ascending and consists of the value 1 (when
  \<open>N \<ge> 1\<close>) followed by exactly the primes in \<open>[2, N]\<close>, each once; it is empty for
  \<open>N = 0\<close>.  The same holds of \<^verbatim>\<open>simplest\<close> and \<^verbatim>\<open>using_remove_if\<close> when \<open>N \<le> 2\<^sup>3\<^sup>1 - 2\<close>.
\<close>

theorem result_is_one_then_primes:
  fixes count :: ulong
  assumes "can_hold cap (Suc (unat count))"
  shows "optimal_case cap count = Some (if count = 0 then [] else 1 # primes_seq count) \<and>
         (count < 2147483647 \<longrightarrow>
            simplest cap count = Some (if count = 0 then [] else 1 # primes_seq count) \<and>
            using_remove_if cap count = Some (if count = 0 then [] else 1 # primes_seq count)) \<and>
         sorted_wrt (<) (1 # primes_seq count) \<and>
         map unat (primes_seq count) = primes_upto (unat count) \<and>
         set (primes_upto (unat count)) = {p. is_prime p \<and> p \<le> unat count}"
  using results_with_storage [OF assms] sorted_primes_seq [of count]
  by (simp add: unat_primes_seq set_primes_upto)

theorem result_is_one_then_primes_witness:
  "can_hold 31 (Suc (unat (30 :: ulong))) \<and> (30 :: ulong) < 2147483647 \<and>
   optimal_case 31 30 = Some [1, 2, 3, 5, 7, 11, 13, 17, 19, 23, 29] \<and>
   simplest 31 30 = Some [1, 2, 3, 5, 7, 11, 13, 17, 19, 23, 29] \<and>
   using_remove_if 31 30 = Some [1, 2, 3, 5, 7, 11, 13, 17, 19, 23, 29] \<and>
   sorted_wrt (<) [1, 2, 3, 5, 7, 11, 13, 17, 19, 23, 29 :: ulong]"
proof -
  have b: "(30 :: ulong) < 2147483647" and nz: "(30 :: ulong) \<noteq> 0"
    by simp_all
  note t = result_is_one_then_primes [OF storage_30]
  from t have "optimal_case 31 30 = Some (if (30 :: ulong) = 0 then [] else 1 # primes_seq 30)"
    and "simplest 31 30 = Some (if (30 :: ulong) = 0 then [] else 1 # primes_seq 30)"
    and "using_remove_if 31 30 = Some (if (30 :: ulong) = 0 then [] else 1 # primes_seq 30)"
    and "sorted_wrt (<) (1 # primes_seq 30)"
    using b by blast+
  then show ?thesis
    using b storage_30 by (simp only: primes_seq_30 nz if_False simp_thms)
qed

theorem result_is_one_then_primes_counterexample:
  "simplest 31 30 = Some [1, 2, 3, 5, 7, 11, 13, 17, 19, 23, 29] \<and> \<not> is_prime 1 \<and>
   can_hold 4294967296 (Suc (unat (2147483648 :: ulong))) \<and>
   simplest 4294967296 2147483648 = None \<and>
   optimal_case 1152921504606846975 18446744073709551615 = None"
proof -
  have "\<not> is_prime 1" by (simp add: is_prime_def)
  moreover have "can_hold 4294967296 (Suc (unat (2147483648 :: ulong)))"
    by (simp add: can_hold_def max_size_def)
  ultimately show ?thesis
    by (simp only: results_30 overflow_at_2147483648 optimal_case_max simp_thms)
qed

text \<open>
  C5, as amended: for every bound \<open>N \<ge> 1\<close> on a platform that can hold \<open>N + 1\<close>
  elements, the value 1 is in the result of \<^verbatim>\<open>optimal_case\<close>, and in the results of
  \<^verbatim>\<open>simplest\<close> and \<^verbatim>\<open>using_remove_if\<close> when \<open>N \<le> 2\<^sup>3\<^sup>1 - 2\<close>.  The removal test is false for
  the value 1 in every round \<open>n \<ge> 1\<close>, and a round of the sieve with \<open>n \<ge> 2\<close> leaves the
  flag of 1 as it is.
\<close>

theorem one_in_every_result:
  fixes count :: ulong
  assumes "1 \<le> count" and "can_hold cap (Suc (unat count))"
  shows "(\<exists>r. optimal_case cap count = Some r \<and> 1 \<in> set r) \<and>
         (count < 2147483647 \<longrightarrow>
            (\<exists>r. simplest cap count = Some r \<and> 1 \<in> set r) \<and>
            (\<exists>r. using_remove_if cap count = Some r \<and> 1 \<in> set r)) \<and>
         (\<forall>n. 1 \<le> n \<longrightarrow> is_multiple n 1 = Some False) \<and>
         (\<forall>n flags flags'. 2 \<le> n \<and> sieve_step n flags = Some flags' \<longrightarrow>
            load flags' 1 = load flags 1)"
proof -
  from assms(1) have nz: "count \<noteq> 0" by auto
  have m: "is_multiple n 1 = Some False" if "1 \<le> n" for n :: ulong
    using that by (auto simp: is_multiple_def dest: leD)
  have s: "load flags' 1 = load flags 1"
    if n: "2 \<le> n \<and> sieve_step n flags = Some flags'" for n :: ulong and flags flags'
  proof -
    from n have n2: "2 \<le> unat n" by (simp add: word_le_nat_alt)
    from n have lt: "unat n < length flags"
      by (auto simp: sieve_step_def load_def split: if_splits)
    from n2 lt have l1: "1 < length flags" by simp
    from n2 have "\<not> (\<exists>j\<ge>2. 1 = j * unat n)" by auto
    with l1 have e: "map (\<lambda>k. flags ! k \<and> \<not> (\<exists>j\<ge>2. k = j * unat n)) [0..<length flags] ! 1
                  = flags ! 1"
      by simp
    from n2 lt n have f: "flags' = (if flags ! unat n
               then map (\<lambda>k. flags ! k \<and> \<not> (\<exists>j\<ge>2. k = j * unat n)) [0..<length flags]
               else flags)"
      using sieve_step_eq [of n flags] by simp
    show ?thesis
    proof (cases "flags ! unat n")
      case True
      with f have "length flags' = length flags" "flags' ! 1 = flags ! 1"
        using e by simp_all
      then show ?thesis by (simp add: load_def)
    next
      case False
      with f show ?thesis by simp
    qed
  qed
  show ?thesis
    using results_with_storage [OF assms(2)] nz m s by auto
qed

theorem one_in_every_result_witness:
  "(1 :: ulong) \<le> 30 \<and> can_hold 31 (Suc (unat (30 :: ulong))) \<and> (30 :: ulong) < 2147483647 \<and>
   (\<exists>r. optimal_case 31 30 = Some r \<and> 1 \<in> set r) \<and>
   (\<exists>r. simplest 31 30 = Some r \<and> 1 \<in> set r) \<and>
   (\<exists>r. using_remove_if 31 30 = Some r \<and> 1 \<in> set r) \<and>
   (1 :: ulong) \<le> 7 \<and> is_multiple 7 1 = Some False"
proof -
  have a: "(1 :: ulong) \<le> 30" and b: "(30 :: ulong) < 2147483647"
    and c: "(1 :: ulong) \<le> 7"
    by simp_all
  from one_in_every_result [OF a storage_30] a b c storage_30 show ?thesis by blast
qed

theorem one_in_every_result_counterexample:
  "(1 :: ulong) \<le> 18446744073709551615 \<and>
   simplest 1152921504606846975 18446744073709551615 = None \<and>
   using_remove_if 1152921504606846975 18446744073709551615 = None \<and>
   optimal_case 1152921504606846975 18446744073709551615 = None \<and>
   (1 :: ulong) \<le> 2147483648 \<and> can_hold 4294967296 (Suc (unat (2147483648 :: ulong))) \<and>
   simplest 4294967296 2147483648 = None \<and>
   using_remove_if 4294967296 2147483648 = None"
proof -
  have "(1 :: ulong) \<le> 18446744073709551615" and "(1 :: ulong) \<le> 2147483648"
    by simp_all
  moreover have "can_hold 4294967296 (Suc (unat (2147483648 :: ulong)))"
    by (simp add: can_hold_def max_size_def)
  ultimately show ?thesis
    by (simp only: overflow_at_2147483648 seed_refused optimal_case_max simp_thms)
qed

lemma seed_small:
  "iota (replicate (unat (0 :: ulong)) 0) 1 = Some []"
  "iota (replicate (unat (1 :: ulong)) 0) 1 = Some [1]"
  by code_simp+

lemma outer_loops_small:
  "simplest_loop 0 2 [] = Some []" "simplest_loop 1 2 [1] = Some [1]"
  "remove_if_loop 0 2 [] = Some []" "remove_if_loop 1 2 [1] = Some [1]"
  by code_simp+

lemma sieve_loop_small:
  "sieve_loop 2 [True] = Some [True]" "sieve_loop 2 [True, True] = Some [True, True]"
  by code_simp+

lemma copy_loop_small:
  "copy_loop cap 0 [True] [] = Some []"
  "1 \<le> cap \<Longrightarrow> copy_loop cap 0 [True, True] [] = Some [1]"
proof -
  have e1: "copy_loop cap (Suc 0) [True] [] = Some []"
    by (subst copy_loop.simps) simp
  have e2: "copy_loop cap (Suc (Suc 0)) [True, True] l = Some l" for l
    by (subst copy_loop.simps) simp
  show "copy_loop cap 0 [True] [] = Some []"
    by (subst copy_loop.simps) (simp add: e1)
  assume "1 \<le> cap"
  then have "push_back cap [] 1 = Some [1]"
    by (simp add: push_back_def can_hold_def max_size_def)
  then have "copy_loop cap (Suc 0) [True, True] [] = Some [1]"
    by (subst copy_loop.simps) (simp add: e2)
  then show "copy_loop cap 0 [True, True] [] = Some [1]"
    by (subst copy_loop.simps) simp
qed

lemma flags_small:
  "replicate (unat (0 + 1 :: ulong)) True = [True]"
  "replicate (unat (1 + 1 :: ulong)) True = [True, True]"
  by code_simp+

lemma sieve_pass_small:
  assumes "2 \<le> cap"
  shows "sieve_pass cap 0 = Some [True]" "sieve_pass cap 1 = Some [True, True]"
proof -
  have c: "can_hold cap (unat (0 + 1 :: ulong))" "can_hold cap (unat (1 + 1 :: ulong))"
    using assms by (simp_all add: can_hold_def max_size_def)
  show "sieve_pass cap 0 = Some [True]"
    by (simp only: sieve_pass_def c flags_small sieve_loop_small if_True)
  show "sieve_pass cap 1 = Some [True, True]"
    by (simp only: sieve_pass_def c flags_small sieve_loop_small if_True)
qed

lemma simplest_small:
  assumes "2 \<le> cap"
  shows "simplest cap 0 = Some []" "simplest cap 1 = Some [1]"
    "using_remove_if cap 0 = Some []" "using_remove_if cap 1 = Some [1]"
  using assms seed_small
  by (simp_all add: simplest_def using_remove_if_def can_hold_def max_size_def
      outer_loops_small)

lemma optimal_case_small:
  assumes "2 \<le> cap"
  shows "optimal_case cap 0 = Some []" "optimal_case cap 1 = Some [1]"
  using assms
  by (simp_all add: optimal_case_def sieve_pass_small can_hold_def copy_loop_small)

text \<open>
  C6: for the bound 0 all three algorithms return the empty sequence, and for the bound 1
  all three return \<open>[1]\<close>, on every platform that can hold two elements.  In \<^verbatim>\<open>simplest\<close>
  and \<^verbatim>\<open>using_remove_if\<close> the seed sequence is \<open>[]\<close> and \<open>[1]\<close> and the outer loop returns
  it as it is; in \<^verbatim>\<open>optimal_case\<close> the sieve pass leaves the flags all set and the copy
  loop takes offset 1 only.
\<close>

theorem bounds_zero_and_one:
  assumes "2 \<le> cap"
  shows "simplest cap 0 = Some [] \<and> using_remove_if cap 0 = Some [] \<and>
   optimal_case cap 0 = Some [] \<and>
   simplest cap 1 = Some [1] \<and> using_remove_if cap 1 = Some [1] \<and>
   optimal_case cap 1 = Some [1] \<and>
   iota (replicate (unat (0 :: ulong)) 0) 1 = Some [] \<and>
   iota (replicate (unat (1 :: ulong)) 0) 1 = Some [1] \<and>
   simplest_loop 0 2 [] = Some [] \<and> simplest_loop 1 2 [1] = Some [1] \<and>
   remove_if_loop 0 2 [] = Some [] \<and> remove_if_loop 1 2 [1] = Some [1] \<and>
   sieve_pass cap 0 = Some [True] \<and> sieve_pass cap 1 = Some [True, True] \<and>
   copy_loop cap 0 [True] [] = Some [] \<and> copy_loop cap 0 [True, True] [] = Some [1]"
proof -
  from assms have "1 \<le> cap" by simp
  then show ?thesis
    by (simp only: simplest_small [OF assms] optimal_case_small [OF assms] seed_small
        outer_loops_small sieve_pass_small [OF assms] copy_loop_small simp_thms)
qed

theorem bounds_zero_and_one_witness:
  "(2 :: nat) \<le> 2 \<and>
   simplest 2 0 = Some [] \<and> using_remove_if 2 0 = Some [] \<and> optimal_case 2 0 = Some [] \<and>
   simplest 2 1 = Some [1] \<and> using_remove_if 2 1 = Some [1] \<and> optimal_case 2 1 = Some [1] \<and>
   sieve_pass 2 0 = Some [True] \<and> sieve_pass 2 1 = Some [True, True] \<and>
   copy_loop 2 0 [True] [] = Some [] \<and> copy_loop 2 0 [True, True] [] = Some [1]"
proof -
  have a: "(2 :: nat) \<le> 2" by simp
  from bounds_zero_and_one [OF a] a show ?thesis by blast
qed



text \<open>
  C9: for every non-negative elapsed time \<open>d\<close> (in nanoseconds), the report gives the
  time in milliseconds exactly when \<open>d\<close> is at least one millisecond, and otherwise in
  nanoseconds.
\<close>

theorem elapsed_time_unit:
  assumes "0 \<le> d"
  shows "elapsed_line d =
         (if 1000000 \<le> d then ''  executed in '' @ show_long (d div 1000000) @ '' ms''
          else ''  executed in '' @ show_long d @ '' ns'')"
proof -
  have "(0 < d div 1000000) = (1000000 \<le> d)"
    using assms by (simp add: pos_imp_zdiv_pos_iff)
  then show ?thesis
    using assms by (simp add: elapsed_line_def to_milliseconds_nonneg)
qed

lemma show_long_examples:
  "show_long 2 = ''2''" "show_long 1 = ''1''" "show_long 999999 = ''999999''"
  by code_simp+

theorem elapsed_time_unit_witness:
  "(0 :: int) \<le> 2500000 \<and> elapsed_line 2500000 = ''  executed in 2 ms'' \<and>
   (0 :: int) \<le> 1000000 \<and> elapsed_line 1000000 = ''  executed in 1 ms'' \<and>
   (0 :: int) \<le> 999999 \<and> elapsed_line 999999 = ''  executed in 999999 ns''"
proof -
  have a: "(0 :: int) \<le> 2500000" and b: "(0 :: int) \<le> 1000000" and c: "(0 :: int) \<le> 999999"
    by simp_all
  from elapsed_time_unit [OF a] elapsed_time_unit [OF b] elapsed_time_unit [OF c]
  show ?thesis by (simp add: show_long_examples)
qed

lemma half_in_bounds:
  fixes n count :: ulong
  assumes "2 \<le> n" and "n \<le> (of_nat (length flags) :: ulong) div 2"
    and "length flags = unat (count + 1)"
  shows "unat n < length flags"
proof -
  have "unat (count + 1) < 2 ^ 64"
    using unsigned_less [of "count + 1"] by simp
  then have "length flags < 2 ^ 64"
    by (simp only: assms(3))
  from half_size [OF this] assms(2) have "unat n \<le> length flags div 2" by simp
  moreover from assms(1) have "2 \<le> unat n" by (simp add: word_le_nat_alt)
  ultimately show ?thesis by arith
qed

text \<open>
  C10, as amended: for every bound \<open>N\<close> on a platform that can hold \<open>N + 1\<close> elements, no
  flag is read or written out of range in \<^verbatim>\<open>optimal_case\<close>, and the call returns.  On
  flags of the length the source allocates, every \<open>n\<close> that passes the test of the outer
  loop is an offset within the flags, and the inner loop, for a step \<open>n > 0\<close>, ends with
  every write within the flags.
\<close>

theorem flag_accesses_in_bounds:
  fixes count :: ulong
  assumes "can_hold cap (Suc (unat count))"
  shows "(\<exists>r. optimal_case cap count = Some r) \<and>
   (\<exists>flags. sieve_pass cap count = Some flags \<and> length flags = unat (count + 1)) \<and>
   (\<forall>n flags. 2 \<le> n \<and> n \<le> (of_nat (length flags) :: ulong) div 2 \<and>
      length flags = unat (count + 1) \<longrightarrow> (\<exists>b. load flags (unat n) = Some b)) \<and>
   (\<forall>n i flags. 0 < n \<longrightarrow> (\<exists>flags'. clear_multiples n i flags = Some flags'))"
proof -
  have "\<exists>r. optimal_case cap count = Some r"
    using results_with_storage(1) [OF assms] by simp
  moreover have "\<exists>flags. sieve_pass cap count = Some flags \<and> length flags = unat (count + 1)"
  proof -
    have "unat count + 1 < 2 ^ 64"
      using can_hold_no_wrap [OF assms] by simp
    then have "unat (count + 1) = Suc (unat count)" by (rule unat_succ)
    with sieve_pass_flags [OF assms] show ?thesis by auto
  qed
  moreover have "\<exists>b. load flags (unat n) = Some b"
    if "2 \<le> n \<and> n \<le> (of_nat (length flags) :: ulong) div 2 \<and> length flags = unat (count + 1)"
    for n :: ulong and flags
  proof -
    from that have "unat n < length flags"
      by (intro half_in_bounds [of n flags count]) blast+
    then show ?thesis by (simp add: load_def)
  qed
  moreover have "\<exists>flags'. clear_multiples n i flags = Some flags'" if "0 < n" for n i flags
    using that by (simp add: clear_multiples_eq unat_gt_0)
  ultimately show ?thesis by blast
qed

theorem flag_accesses_in_bounds_witness:
  "can_hold 31 (Suc (unat (30 :: ulong))) \<and> (\<exists>r. optimal_case 31 30 = Some r) \<and>
   (2 :: ulong) \<le> 15 \<and> (15 :: ulong) \<le> of_nat (length (replicate 31 True)) div 2 \<and>
   length (replicate 31 True) = unat (30 + 1 :: ulong) \<and>
   (\<exists>b. load (replicate 31 True) (unat (15 :: ulong)) = Some b) \<and>
   (0 :: ulong) < 15 \<and> (\<exists>flags'. clear_multiples 15 30 (replicate 31 True) = Some flags')"
proof -
  have a: "(2 :: ulong) \<le> 15 \<and> (15 :: ulong) \<le> of_nat (length (replicate 31 True)) div 2 \<and>
           length (replicate 31 True) = unat (30 + 1 :: ulong)"
    and b: "(0 :: ulong) < 15"
    by simp_all
  from flag_accesses_in_bounds [OF storage_30] a b storage_30 show ?thesis by blast
qed

theorem flag_accesses_in_bounds_counterexample:
  "optimal_case 1152921504606846975 18446744073709551615 = None \<and>
   sieve_pass 1152921504606846975 18446744073709551614 = None \<and>
   optimal_case 1152921504606846975 18446744073709551614 = None"
  by (simp only: optimal_case_max flags_refused optimal_case_refused simp_thms)

text \<open>
  C7: for the shipped bound 50000, on every platform that can hold 50001 elements, each of
  the three algorithms returns the value 1 followed by one and the same sequence of 5133
  values.
\<close>

theorem shipped_bound_5133:
  assumes "50001 \<le> cap"
  shows "\<exists>ps. length ps = 5133 \<and> simplest cap 50000 = Some (1 # ps) \<and>
     using_remove_if cap 50000 = Some (1 # ps) \<and> optimal_case cap 50000 = Some (1 # ps)"
proof -
  have b: "(50000 :: ulong) < 2147483647" and nz: "(50000 :: ulong) \<noteq> 0"
    by simp_all
  have s: "can_hold cap (Suc (unat (50000 :: ulong)))"
    using assms by (simp add: can_hold_def max_size_def)
  have "length (primes_seq 50000) = length (primes_upto (unat (50000 :: ulong)))"
    by (simp only: primes_seq_def length_map)
  also have "unat (50000 :: ulong) = 50000" by simp
  finally have "length (primes_seq 50000) = 5133"
    by (simp only: length_primes_upto_50000)
  moreover have "simplest cap 50000 = Some (1 # primes_seq 50000)"
    and "using_remove_if cap 50000 = Some (1 # primes_seq 50000)"
    and "optimal_case cap 50000 = Some (1 # primes_seq 50000)"
    using results_with_storage [OF s] b nz by simp_all
  ultimately show ?thesis by blast
qed

theorem shipped_bound_5133_witness:
  "(50001 :: nat) \<le> 50001 \<and>
   (\<exists>ps. length ps = 5133 \<and> simplest 50001 50000 = Some (1 # ps) \<and>
     using_remove_if 50001 50000 = Some (1 # ps) \<and> optimal_case 50001 50000 = Some (1 # ps))"
proof -
  have a: "(50001 :: nat) \<le> 50001" by simp
  from shipped_bound_5133 [OF a] a show ?thesis by blast
qed

end
